theory Spec2Isabelle
  imports Main "HOL-Library.AList" "HOL-Library.Multiset" "HOL-Library.Word"
begin

section \<open>mgbdis: a shallow embedding of the per-bank disassembler\<close>

text \<open>
  The source is \<^verbatim>\<open>mgbdis.py\<close>. Python integers are \<^typ>\<open>int\<close>, the bytes of the
  ROM image are \<^typ>\<open>8 word\<close>, strings are \<^typ>\<open>string\<close>. A Python \<^verbatim>\<open>dict\<close>
  whose keys are sorted by the code is an association list updated with
  \<^const>\<open>AList.update\<close> (a new key goes to the end, an existing key keeps its place and
  gets the new value, as in Python); a \<^verbatim>\<open>dict\<close> that is only looked up is a map.
  Every raise and every \<^verbatim>\<open>abort\<close> is a value \<open>Inl e\<close> of a sum type.
\<close>

subsection \<open>Errors\<close>

datatype error =
    Abort string  \<comment> \<open>\<^verbatim>\<open>abort(message)\<close>: prints the message and exits\<close>
  | IndexError    \<comment> \<open>a read of \<^verbatim>\<open>rom.data\<close> out of range\<close>
  | KeyError      \<comment> \<open>a lookup of a key that a \<^verbatim>\<open>dict\<close> does not have\<close>

subsection \<open>Formatting helpers\<close>

definition hex_digit :: "nat \<Rightarrow> char" where
  "hex_digit d = ''0123456789abcdef'' ! (d mod 16)"

fun hex_digits :: "nat \<Rightarrow> string" where
  "hex_digits n = (if n < 16 then [hex_digit n] else hex_digits (n div 16) @ [hex_digit (n mod 16)])"

declare hex_digits.simps [simp del]

definition zero_pad :: "nat \<Rightarrow> string \<Rightarrow> string" where
  "zero_pad w s = replicate (w - length s) (CHR ''0'') @ s"

text \<open>
  \<^verbatim>\<open>'{:0Wx}'.format(value)\<close>: lower-case hexadecimal, padded with zeros to \<open>W\<close>
  characters; the sign of a negative value comes first and counts in the width.
\<close>

definition format_hex :: "nat \<Rightarrow> int \<Rightarrow> string" where
  "format_hex w v =
     (if v < 0 then CHR ''-'' # zero_pad (w - 1) (hex_digits (nat (- v)))
      else zero_pad w (hex_digits (nat v)))"

definition hex_word :: "int \<Rightarrow> string" where
  "hex_word v = CHR ''$'' # format_hex 4 v"

definition hex_byte :: "int \<Rightarrow> string" where
  "hex_byte v = CHR ''$'' # format_hex 2 v"

definition rom_address_to_mem_address :: "int \<Rightarrow> int" where
  "rom_address_to_mem_address address =
     (if address < 0x4000 then address else (address mod 0x4000) + 0x4000)"

definition to_signed :: "int \<Rightarrow> int" where
  "to_signed v = (if v > 127 then (256 - v) * (- 1) else v)"

text \<open>\<^verbatim>\<open>sep.join(xs)\<close>.\<close>

fun join :: "string \<Rightarrow> string list \<Rightarrow> string" where
  "join sep [] = []"
| "join sep [x] = x"
| "join sep (x # y # ys) = x @ sep @ join sep (y # ys)"

subsection \<open>Banks and region hints\<close>

datatype block_type = Code | Data | Text

record block =
  block_type :: block_type
  block_length :: int

type_synonym blocks = "(int \<times> block) list"

record bank =
  bank_number :: int
  blocks :: blocks
  disassembled_addresses :: "int set"
  labelled_addresses :: "int \<rightharpoonup> string"
  memory_base_address :: int
  rom_base_address :: int
  target_addresses :: "string \<rightharpoonup> int set"
  first_pass :: bool
  pc :: int
  "output" :: "string list"

definition add_block :: "int \<Rightarrow> block_type \<Rightarrow> int \<Rightarrow> bank \<Rightarrow> bank" where
  "add_block address ty len b =
     (if address \<ge> memory_base_address b
      then b\<lparr>blocks := AList.update address \<lparr>block_type = ty, block_length = len\<rparr> (blocks b)\<rparr>
      else b)"

text \<open>
  \<^verbatim>\<open>Bank.__init__\<close>. The fields \<^verbatim>\<open>first_pass\<close>, \<^verbatim>\<open>pc\<close> and \<^verbatim>\<open>output\<close> are
  created later by \<^verbatim>\<open>disassemble\<close> and written before they are read; here they start
  at \<open>False\<close>, \<open>0\<close> and \<open>[]\<close>.
\<close>

definition Bank :: "int \<Rightarrow> bank" where
  "Bank number =
     add_block (if number = 0 then 0 else 0x4000) Code 0x4000
       \<lparr>bank_number = number,
        blocks = [],
        disassembled_addresses = {},
        labelled_addresses = Map.empty,
        memory_base_address = (if number = 0 then 0 else 0x4000),
        rom_base_address = (if number = 0 then 0 else (number - 1) * 0x4000),
        target_addresses = [''call'' \<mapsto> {}, ''jp'' \<mapsto> {}, ''jr'' \<mapsto> {}],
        first_pass = False,
        pc = 0,
        output = []\<rparr>"

text \<open>A sequence of \<^verbatim>\<open>add_block\<close> calls, in order, as \<^verbatim>\<open>init_symbols\<close> issues them.\<close>

fun add_blocks :: "bank \<Rightarrow> (int \<times> block_type \<times> int) list \<Rightarrow> bank" where
  "add_blocks b [] = b"
| "add_blocks b ((address, ty, len) # hints) = add_blocks (add_block address ty len b) hints"

text \<open>
  The body of the loop of \<^verbatim>\<open>resolve_blocks\<close> for the start address \<open>s\<close>; \<open>rest\<close>
  holds the sorted start addresses after \<open>s\<close>, so \<^verbatim>\<open>next_start_address\<close> is its head
  and \<^verbatim>\<open>None\<close> when it is empty. \<open>s\<close> is a key of \<open>bs\<close>, so the lookup finds it.
\<close>

definition resolve_step :: "int \<Rightarrow> blocks \<Rightarrow> int \<Rightarrow> int list \<Rightarrow> blocks \<Rightarrow> blocks" where
  "resolve_step base bs s rest resolved =
     (let blk = the (map_of bs s);
          end_address0 = s + block_length blk;
          next_start_address = (case rest of [] \<Rightarrow> None | n # _ \<Rightarrow> Some n);
          end_address = (case next_start_address of
                           None \<Rightarrow> end_address0
                         | Some n \<Rightarrow> if n < end_address0 then n else end_address0);
          r1 = AList.update s \<lparr>block_type = block_type blk, block_length = end_address - s\<rparr> resolved;
          r2 = (if next_start_address = None \<and> end_address \<noteq> base + 0x4000
                then AList.update end_address
                       \<lparr>block_type = Code, block_length = (base + 0x4000) - end_address\<rparr> r1
                else r1)
      in (case next_start_address of
            None \<Rightarrow> r2
          | Some n \<Rightarrow>
              if end_address < n
              then AList.update end_address \<lparr>block_type = Code, block_length = n - end_address\<rparr> r2
              else r2))"

fun resolve_loop :: "int \<Rightarrow> blocks \<Rightarrow> int list \<Rightarrow> blocks \<Rightarrow> blocks" where
  "resolve_loop base bs [] resolved = resolved"
| "resolve_loop base bs (s # rest) resolved =
     resolve_loop base bs rest (resolve_step base bs s rest resolved)"

definition resolve_blocks :: "bank \<Rightarrow> bank" where
  "resolve_blocks b =
     b\<lparr>blocks := resolve_loop (memory_base_address b) (blocks b) (sort (map fst (blocks b))) []\<rparr>"

text \<open>
  The regions in the order \<^verbatim>\<open>disassemble\<close> walks them:
  \<^verbatim>\<open>sorted(self.blocks.keys())\<close>, each key with its block.
\<close>

definition sorted_blocks :: "bank \<Rightarrow> (int \<times> block) list" where
  "sorted_blocks b = map (\<lambda>k. (k, the (map_of (blocks b) k))) (sort (map fst (blocks b)))"

text \<open>Region \<open>r\<close> (start address and block) contains address \<open>a\<close>.\<close>

definition block_covers :: "int \<times> block \<Rightarrow> int \<Rightarrow> bool" where
  "block_covers r a \<longleftrightarrow> fst r \<le> a \<and> a < fst r + block_length (snd r)"

text \<open>The number of regions of the bank that contain address \<open>a\<close>.\<close>

definition cover_count :: "bank \<Rightarrow> int \<Rightarrow> nat" where
  "cover_count b a = length (filter (\<lambda>r. block_covers r a) (sorted_blocks b))"

subsection \<open>The ROM image and the opcode table\<close>

text \<open>
  The module \<^verbatim>\<open>instruction_set\<close> (the dictionaries \<^verbatim>\<open>instructions\<close> and
  \<^verbatim>\<open>cb_instructions\<close>) is not part of the source at hand. \<^verbatim>\<open>ROM.split_instructions\<close>
  splits every entry of it into a name and a list of operand strings, under the same key;
  the four dictionaries it builds are fields of the record, supplied by the caller, and
  the keys of \<^verbatim>\<open>instructions\<close> are the keys of \<open>instruction_names\<close>.
\<close>

record rom =
  data :: "8 word list"
  has_ld_long :: bool
  instruction_names :: "int \<rightharpoonup> string"
  instruction_operands :: "int \<rightharpoonup> string list"
  cb_instruction_name :: "int \<rightharpoonup> string"
  cb_instruction_operands :: "int \<rightharpoonup> string list"

definition hardware_labels :: "int \<rightharpoonup> string" where
  "hardware_labels = map_of
     [(0xFF00, ''rP1''),
      (0xFF01, ''rSB''),
      (0xFF02, ''rSC''),
      (0xFF04, ''rDIV''),
      (0xFF05, ''rTIMA''),
      (0xFF06, ''rTMA''),
      (0xFF07, ''rTAC''),
      (0xFF0F, ''rIF''),
      (0xFF40, ''rLCDC''),
      (0xFF41, ''rSTAT''),
      (0xFF42, ''rSCY''),
      (0xFF43, ''rSCX''),
      (0xFF44, ''rLY''),
      (0xFF45, ''rLYC''),
      (0xFF46, ''rDMA''),
      (0xFF47, ''rBGP''),
      (0xFF48, ''rOBP0''),
      (0xFF49, ''rOBP1''),
      (0xFF4A, ''rWY''),
      (0xFF4B, ''rWX''),
      (0xFF4D, ''rKEY1''),
      (0xFF4F, ''rVBK''),
      (0xFF51, ''rHDMA1''),
      (0xFF52, ''rHDMA2''),
      (0xFF53, ''rHDMA3''),
      (0xFF54, ''rHDMA4''),
      (0xFF55, ''rHDMA5''),
      (0xFF56, ''rRP''),
      (0xFF68, ''rBCPS''),
      (0xFF69, ''rBCPD''),
      (0xFF6A, ''rOCPS''),
      (0xFF6B, ''rOCPD''),
      (0xFF70, ''rSVBK''),
      (0xFFFF, ''rIE''),
      (0xFF24, ''rNR50''),
      (0xFF25, ''rNR51''),
      (0xFF26, ''rNR52''),
      (0xFF10, ''rNR10''),
      (0xFF11, ''rNR11''),
      (0xFF12, ''rNR12''),
      (0xFF13, ''rNR13''),
      (0xFF14, ''rNR14''),
      (0xFF16, ''rNR21''),
      (0xFF17, ''rNR22''),
      (0xFF18, ''rNR23''),
      (0xFF19, ''rNR24''),
      (0xFF1A, ''rNR30''),
      (0xFF1B, ''rNR31''),
      (0xFF1C, ''rNR32''),
      (0xFF1D, ''rNR33''),
      (0xFF1E, ''rNR34''),
      (0xFF20, ''rNR41''),
      (0xFF21, ''rNR42''),
      (0xFF22, ''rNR43''),
      (0xFF23, ''rNR44'')]"

text \<open>The result of a step that may raise: \<open>on_success m f\<close> runs \<open>f\<close> on the value of \<open>m\<close>.\<close>

definition on_success :: "error + 'a \<Rightarrow> ('a \<Rightarrow> error + 'b) \<Rightarrow> error + 'b" where
  "on_success m f = (case m of Inl e \<Rightarrow> Inl e | Inr x \<Rightarrow> f x)"

text \<open>
  \<^verbatim>\<open>rom.data[i]\<close> on the \<^verbatim>\<open>bytes\<close> of the image: an index from 0 up to the size
  reads that byte, an index from minus the size up to \<open>-1\<close> counts back from the end,
  and any other index raises.
\<close>

definition data_at :: "rom \<Rightarrow> int \<Rightarrow> error + int" where
  "data_at r i =
     (if 0 \<le> i \<and> i < int (length (data r)) then Inr (uint (data r ! nat i))
      else if i < 0 \<and> - int (length (data r)) \<le> i
      then Inr (uint (data r ! nat (int (length (data r)) + i)))
      else Inl IndexError)"

text \<open>\<^verbatim>\<open>d[k]\<close> for a dictionary \<open>d\<close>.\<close>

definition lookup :: "('k \<rightharpoonup> 'v) \<Rightarrow> 'k \<Rightarrow> error + 'v" where
  "lookup d k = case_option (Inl KeyError) Inr (d k)"

subsection \<open>Labels\<close>

definition instruction_label_prefixes :: "string \<rightharpoonup> string" where
  "instruction_label_prefixes = [''call'' \<mapsto> ''Call'', ''jp'' \<mapsto> ''Jump'', ''jr'' \<mapsto> ''jr'']"

definition add_label :: "bank \<Rightarrow> string \<Rightarrow> int \<Rightarrow> error + bank" where
  "add_label b instruction_name address =
     on_success (lookup (target_addresses b) instruction_name) (\<lambda>targets.
       if address \<notin> targets
       then Inr (b\<lparr>target_addresses := (target_addresses b)(instruction_name \<mapsto> insert address targets)\<rparr>)
       else Inr b)"

definition format_label :: "bank \<Rightarrow> string \<Rightarrow> int \<Rightarrow> error + string" where
  "format_label b instruction_name address =
     on_success (lookup instruction_label_prefixes instruction_name) (\<lambda>prefix.
       Inr (prefix @ ''_'' @ format_hex 3 (bank_number b) @ ''_'' @ format_hex 4 address))"

definition get_label_for_instruction_operand :: "bank \<Rightarrow> string \<Rightarrow> int \<Rightarrow> error + string option" where
  "get_label_for_instruction_operand b instruction_name address =
     (if address \<notin> disassembled_addresses b then Inr None
      else if address \<in> dom (labelled_addresses b) then Inr (labelled_addresses b address)
      else on_success (lookup (target_addresses b) instruction_name) (\<lambda>targets.
             if address \<in> targets
             then on_success (format_label b instruction_name address) (\<lambda>l. Inr (Some l))
             else Inr None))"

text \<open>
  The test on an explicit label that the two functions below share:
  \<^verbatim>\<open>label[0] == '.'\<close> raises on an empty label.
\<close>

definition explicit_label_line :: "string \<Rightarrow> error + string" where
  "explicit_label_line l =
     (case l of
        [] \<Rightarrow> Inl IndexError
      | c # _ \<Rightarrow> if c = CHR ''.'' then Inr (l @ '':'') else Inr (l @ ''::''))"

definition get_labels_for_non_code_address :: "bank \<Rightarrow> int \<Rightarrow> error + string list" where
  "get_labels_for_non_code_address b address =
     (case labelled_addresses b address of
        Some l \<Rightarrow> on_success (explicit_label_line l) (\<lambda>line. Inr [line])
      | None \<Rightarrow> Inr [])"

text \<open>The loop of \<^verbatim>\<open>get_labels_for_address\<close> over \<^verbatim>\<open>['call', 'jp', 'jr']\<close>.\<close>

fun generated_labels :: "bank \<Rightarrow> int \<Rightarrow> string list \<Rightarrow> string list \<Rightarrow> error + string list" where
  "generated_labels b address [] labels = Inr labels"
| "generated_labels b address (instruction_name # names) labels =
     on_success (lookup (target_addresses b) instruction_name) (\<lambda>targets.
       if address \<in> targets
       then on_success (format_label b instruction_name address) (\<lambda>l.
              generated_labels b address names (labels @ [l @ '':'']))
       else generated_labels b address names labels)"

definition get_labels_for_address :: "bank \<Rightarrow> int \<Rightarrow> error + string list" where
  "get_labels_for_address b address =
     (case labelled_addresses b address of
        Some l \<Rightarrow> on_success (explicit_label_line l) (\<lambda>line. Inr [line])
      | None \<Rightarrow> generated_labels b address [''call'', ''jp'', ''jr''] [])"

subsection \<open>Output\<close>

definition format_instruction :: "string \<Rightarrow> string list \<Rightarrow> string" where
  "format_instruction instruction_name operands =
     ''    '' @ instruction_name @ '' '' @ join '', '' operands"

definition format_data :: "string list \<Rightarrow> string" where
  "format_data ds = format_instruction ''DB'' ds"

definition append_output :: "string \<Rightarrow> bank \<Rightarrow> bank" where
  "append_output txt b = b\<lparr>output := output b @ [txt]\<rparr>"

definition append_empty_line_if_none_already :: "bank \<Rightarrow> bank" where
  "append_empty_line_if_none_already b =
     (if length (output b) > 0 \<and> output b ! (length (output b) - 1) \<noteq> []
      then append_output [] b else b)"

definition append_labels_to_output :: "string list \<Rightarrow> bank \<Rightarrow> bank" where
  "append_labels_to_output labels b =
     append_output (join [CHR 0x0A] labels) (append_empty_line_if_none_already b)"

subsection \<open>The instruction decoder\<close>

text \<open>
  The local variables of \<^verbatim>\<open>disassemble_at_pc\<close> that the operand loop changes, with the
  two objects it writes to: the bank (\<^verbatim>\<open>self\<close>) and the ROM (\<^verbatim>\<open>rom.has_ld_long\<close>).
\<close>

record decoding =
  length' :: int
  instruction_name :: string
  operand_values :: "string list"
  self :: bank
  rom :: rom

text \<open>\<^verbatim>\<open>xs.pop()\<close>: the last element and the list without it; raises on an empty list.\<close>

definition pop :: "'a list \<Rightarrow> error + ('a \<times> 'a list)" where
  "pop xs = (if xs = [] then Inl IndexError else Inr (last xs, butlast xs))"

text \<open>\<^verbatim>\<open>rom.data[pc + 1] + rom.data[pc + 2] * 256\<close>.\<close>

definition read_word :: "rom \<Rightarrow> int \<Rightarrow> error + int" where
  "read_word r pc0 =
     on_success (data_at r (pc0 + 1)) (\<lambda>lo.
     on_success (data_at r (pc0 + 2)) (\<lambda>hi. Inr (lo + hi * 256)))"

text \<open>\<^verbatim>\<open>s.startswith('[')\<close>.\<close>

definition startswith_bracket :: "string \<Rightarrow> bool" where
  "startswith_bracket s = (case s of [] \<Rightarrow> False | c # _ \<Rightarrow> c = CHR ''['')"

text \<open>
  The first part of the body of the operand loop (the chain of tests on the operand
  kind). The result is the variable \<^verbatim>\<open>value\<close> (\<open>None\<close> as in the source), whether the
  loop is left by \<^verbatim>\<open>break\<close>, and the new state. The operands of the table are strings
  (\<^verbatim>\<open>split_instructions\<close> makes them with \<^verbatim>\<open>str.split\<close>), so the branch for an
  operand that is not a string is not taken.
\<close>

definition decode_operand :: "int \<Rightarrow> int \<Rightarrow> string \<Rightarrow> decoding \<Rightarrow> error + (int option \<times> bool \<times> decoding)" where
  "decode_operand opcode pc0 operand st =
     (if operand = ''a16'' then
        on_success (read_word (rom st) pc0) (\<lambda>v.
          Inr (Some v, False,
               st\<lparr>length' := length' st + 2,
                  operand_values := operand_values st @ [hex_word v]\<rparr>))
      else if operand = ''[a16]'' then
        on_success (read_word (rom st) pc0) (\<lambda>v.
          let st1 = st\<lparr>length' := length' st + 2,
                       operand_values := operand_values st @ [''['' @ hex_word v @ '']'']\<rparr>
          in if v \<ge> 0xff00 \<and> (opcode = 0xea \<or> opcode = 0xfa)
             then on_success (pop (operand_values st1)) (\<lambda>(_, popped).
                    Inr (Some v, False,
                         st1\<lparr>rom := (rom st1)\<lparr>has_ld_long := True\<rparr>,
                             instruction_name := ''ld_long'',
                             operand_values := popped @ [hex_word v]\<rparr>))
             else Inr (Some v, False, st1))
      else if operand = ''[$ff00+a8]'' then
        on_success (data_at (rom st) (pc0 + 1)) (\<lambda>v.
          let full_value = 0xff00 + v
          in Inr (Some v, False,
                  st\<lparr>length' := length' st + 1,
                     operand_values := operand_values st @
                       [case hardware_labels full_value of
                          Some l \<Rightarrow> ''['' @ l @ '']''
                        | None \<Rightarrow> ''[$ff00+'' @ hex_byte v @ '']'']\<rparr>))
      else if operand = ''d8'' then
        on_success (data_at (rom st) (pc0 + 1)) (\<lambda>v.
          Inr (Some v, False,
               st\<lparr>length' := length' st + 1,
                  operand_values := operand_values st @ [hex_byte v]\<rparr>))
      else if operand = ''d16'' then
        on_success (read_word (rom st) pc0) (\<lambda>v.
          Inr (Some v, False,
               st\<lparr>length' := length' st + 2,
                  operand_values := operand_values st @ [hex_word v]\<rparr>))
      else if operand = ''r8'' then
        on_success (data_at (rom st) (pc0 + 1)) (\<lambda>byte.
          let v = to_signed byte
          in Inr (Some v, False,
                  st\<lparr>length' := length' st + 1,
                     operand_values := operand_values st @
                       [if v < 0 then ''-'' @ hex_byte \<bar>v\<bar> else hex_byte v]\<rparr>))
      else if operand = ''pc+r8'' then
        on_success (data_at (rom st) (pc0 + 1)) (\<lambda>byte.
          let v = pc0 + 2 + to_signed byte;
              relative_value = v - pc0;
              st1 = st\<lparr>length' := length' st + 1,
                       operand_values := operand_values st @
                         [if relative_value \<ge> 0 then ''@+'' @ hex_byte relative_value
                          else ''@-'' @ hex_byte (relative_value * (- 1))]\<rparr>;
              target_bank = v div 0x4000;
              v' = (if bank_number (self st) \<noteq> target_bank then None
                    else Some (rom_address_to_mem_address v))
          in if target_bank < bank_number (self st)
             then Inr (v', True,
                       st1\<lparr>instruction_name := ''DB'',
                           operand_values := [hex_byte opcode, hex_byte byte]\<rparr>)
             else Inr (v', False, st1))
      else if operand = ''sp+r8'' then
        on_success (data_at (rom st) (pc0 + 1)) (\<lambda>byte.
          let v = to_signed byte
          in Inr (Some v, False,
                  st\<lparr>length' := length' st + 1,
                     operand_values := operand_values st @
                       [if v < 0 then ''sp-'' @ hex_byte \<bar>v\<bar> else ''sp+'' @ hex_byte v]\<rparr>))
      else Inr (None, False, st\<lparr>operand_values := operand_values st @ [operand]\<rparr>))"

text \<open>
  The second part of the body of the operand loop: the target of a \<^verbatim>\<open>jr\<close>,
  \<^verbatim>\<open>jp\<close> or \<^verbatim>\<open>call\<close> below \<open>0x8000\<close> is recorded (first pass) or replaced by its
  label (second pass); any other value at or above \<open>0xc000\<close> is replaced by its explicit
  label.
\<close>

definition resolve_operand_label :: "int option \<Rightarrow> decoding \<Rightarrow> error + decoding" where
  "resolve_operand_label val st =
     (if instruction_name st \<in> set [''jr'', ''jp'', ''call''] \<and> val \<noteq> None \<and> the val < 0x8000 then
        let mem_address = rom_address_to_mem_address (the val)
        in if (mem_address < 0x4000 \<and> bank_number (self st) = 0) \<or>
              (mem_address \<ge> 0x4000 \<and> bank_number (self st) > 0)
           then if first_pass (self st)
                then on_success (add_label (self st) (instruction_name st) mem_address) (\<lambda>b.
                       Inr (st\<lparr>self := b\<rparr>))
                else on_success (get_label_for_instruction_operand (self st) (instruction_name st) mem_address)
                       (\<lambda>label.
                         case label of
                           None \<Rightarrow> Inr st
                         | Some l \<Rightarrow>
                             on_success (pop (operand_values st)) (\<lambda>(_, popped).
                               Inr (st\<lparr>operand_values := popped @ [l]\<rparr>)))
           else Inr st
      else if val \<noteq> None \<and> the val \<ge> 0xc000 then
        (case labelled_addresses (self st) (the val) of
           None \<Rightarrow> Inr st
         | Some label \<Rightarrow>
             on_success (pop (operand_values st)) (\<lambda>(operand, popped).
               Inr (st\<lparr>operand_values := popped @
                         [if startswith_bracket operand then ''['' @ label @ '']'' else label]\<rparr>)))
      else Inr st)"

text \<open>The operand loop, \<^verbatim>\<open>for operand in operands\<close>, with its \<^verbatim>\<open>break\<close>.\<close>

fun decode_operands :: "int \<Rightarrow> int \<Rightarrow> string list \<Rightarrow> decoding \<Rightarrow> error + decoding" where
  "decode_operands opcode pc0 [] st = Inr st"
| "decode_operands opcode pc0 (operand # operands) st =
     on_success (decode_operand opcode pc0 operand st) (\<lambda>(val, brk, st1).
       if brk then Inr st1
       else on_success (resolve_operand_label val st1) (\<lambda>st2.
              decode_operands opcode pc0 operands st2))"

text \<open>
  The lookup of the opcode: the length so far, the name and the operands. The prefix
  \<open>0xCB\<close> takes them from the second table, under the byte that follows.
\<close>

definition fetch_instruction :: "rom \<Rightarrow> int \<Rightarrow> int \<Rightarrow> error + (int \<times> string \<times> string list)" where
  "fetch_instruction r pc0 opcode =
     (if opcode = 0xCB then
        on_success (data_at r (pc0 + 1)) (\<lambda>cb_opcode.
        on_success (lookup (cb_instruction_name r) cb_opcode) (\<lambda>name.
        on_success (lookup (cb_instruction_operands r) cb_opcode) (\<lambda>operands.
          Inr (1 + 1, name, operands))))
      else
        on_success (lookup (instruction_names r) opcode) (\<lambda>name.
        on_success (lookup (instruction_operands r) opcode) (\<lambda>operands.
          Inr (1, name, operands))))"

text \<open>The rule for \<^verbatim>\<open>stop\<close> and \<^verbatim>\<open>halt\<close>.\<close>

definition stop_or_halt :: "rom \<Rightarrow> int \<Rightarrow> int \<Rightarrow> int \<times> string \<times> string list \<Rightarrow> error + (int \<times> string \<times> string list)" where
  "stop_or_halt r pc0 opcode ins =
     (case ins of (len, name, operands) \<Rightarrow>
        if name = ''stop'' \<or> name = ''halt'' then
          on_success (data_at r (pc0 + 1)) (\<lambda>following.
            if following = 0x00 then Inr (len + 1, name, operands)
            else Inr (len, ''DB'', [hex_byte opcode]))
        else Inr (len, name, operands))"

text \<open>The check that the instruction does not run past the end of the region.\<close>

definition check_end :: "int \<Rightarrow> int \<Rightarrow> int \<Rightarrow> decoding \<Rightarrow> decoding" where
  "check_end pc0 opcode end_address st =
     (if pc0 + length' st - 1 \<ge> end_address
      then st\<lparr>length' := 1, instruction_name := ''DB'', operand_values := [hex_byte opcode]\<rparr>
      else st)"

text \<open>
  \<^verbatim>\<open>disassemble_at_pc\<close> up to the end of the operand loop: the opcode and the
  decoded instruction (name, operand texts, length) with the bank and the ROM as the
  loop left them.
\<close>

definition decode_unchecked :: "bank \<Rightarrow> rom \<Rightarrow> error + (int \<times> decoding)" where
  "decode_unchecked b r =
     (let pc0 = pc b
      in on_success (data_at r pc0) (\<lambda>opcode.
           if opcode \<notin> dom (instruction_names r)
           then Inl (Abort (''Unhandled opcode: '' @ hex_byte opcode @ '' at '' @ hex_word pc0))
           else
             on_success (fetch_instruction r pc0 opcode) (\<lambda>ins.
             on_success (stop_or_halt r pc0 opcode ins) (\<lambda>(len, name, operands).
             on_success (decode_operands opcode pc0 operands
                           \<lparr>length' = len, instruction_name = name, operand_values = [],
                            self = b, rom = r\<rparr>) (\<lambda>st.
               Inr (opcode, st))))))"

text \<open>
  \<^verbatim>\<open>disassemble_at_pc\<close> up to the point where \<^verbatim>\<open>self.pc\<close> is advanced: the
  instruction after the check of the end of the region.
\<close>

definition decode_instruction :: "bank \<Rightarrow> rom \<Rightarrow> int \<Rightarrow> error + decoding" where
  "decode_instruction b r end_address =
     on_success (decode_unchecked b r) (\<lambda>(opcode, st).
       Inr (check_end (pc b) opcode end_address st))"

text \<open>
  The rest of \<^verbatim>\<open>disassemble_at_pc\<close> in the second pass: the labels of the address, the
  line of the instruction, and the empty lines after a return or a jump. The variable
  \<^verbatim>\<open>comment\<close> is always \<^verbatim>\<open>None\<close>, and \<^verbatim>\<open>format_instruction\<close> ignores the address and
  the bytes of the instruction.
\<close>

definition emit_instruction :: "int \<Rightarrow> string \<Rightarrow> string list \<Rightarrow> bank \<Rightarrow> error + bank" where
  "emit_instruction pc_mem_address name operands b =
     on_success (get_labels_for_address b pc_mem_address) (\<lambda>labels.
       let b1 = (if length labels \<noteq> 0 then append_labels_to_output labels b else b);
           b2 = append_output (format_instruction name operands) b1
       in if name \<in> set [''ret'', ''reti'', ''jr'', ''jp'']
          then if name = ''jr'' \<or> (name = ''jp'' \<and> length operands > 1) \<or>
                  (name = ''ret'' \<and> length operands > 0)
               then Inr (append_output [] b2)
               else Inr (append_output [] (append_output [] b2))
          else Inr b2)"

definition disassemble_at_pc :: "bank \<Rightarrow> rom \<Rightarrow> int \<Rightarrow> error + (bank \<times> rom)" where
  "disassemble_at_pc b r end_address =
     (let pc0 = pc b; pc_mem_address = rom_address_to_mem_address pc0
      in on_success (decode_instruction b r end_address) (\<lambda>st.
           let b1 = (self st)\<lparr>pc := pc (self st) + length' st\<rparr>
           in if first_pass b1
              then Inr (b1\<lparr>disassembled_addresses := insert pc_mem_address (disassembled_addresses b1)\<rparr>,
                        rom st)
              else on_success (emit_instruction pc_mem_address (instruction_name st) (operand_values st) b1)
                     (\<lambda>b2. Inr (b2, rom st))))"

subsection \<open>Data regions\<close>

text \<open>
  The loop of \<^verbatim>\<open>process_data_in_range\<close> over \<^verbatim>\<open>range(start_address, end_address)\<close>;
  \<open>vals\<close> is the list \<^verbatim>\<open>values\<close>.
\<close>

fun data_loop :: "rom \<Rightarrow> int \<Rightarrow> int list \<Rightarrow> string list \<Rightarrow> bank \<Rightarrow> error + bank" where
  "data_loop r end_address [] vals b = Inr b"
| "data_loop r end_address (address # addresses) vals b =
     (let mem_address = rom_address_to_mem_address address
      in on_success (get_labels_for_non_code_address b mem_address) (\<lambda>labels.
           let (vals1, b1) =
                 (if length labels \<noteq> 0
                  then (if length vals > 0
                        then ([], append_labels_to_output labels (append_output (format_data vals) b))
                        else (vals, append_labels_to_output labels b))
                  else (vals, b))
           in on_success (data_at r address) (\<lambda>byte.
                let vals2 = vals1 @ [hex_byte byte]
                in if length vals2 = 16 \<or> (address = end_address - 1 \<and> length vals2 \<noteq> 0)
                   then data_loop r end_address addresses [] (append_output (format_data vals2) b1)
                   else data_loop r end_address addresses vals2 b1)))"

definition process_data_in_range :: "bank \<Rightarrow> rom \<Rightarrow> int \<Rightarrow> int \<Rightarrow> error + bank" where
  "process_data_in_range b r start_address end_address =
     data_loop r end_address [start_address..end_address - 1] [] b"

subsection \<open>Explicit labels\<close>

text \<open>
  The branch of \<^verbatim>\<open>ROM.add_symbol_definition\<close> that adds a label, once the definition is
  parsed into a bank number, an address and a label: an address in RAM gets the label in
  every bank, any other address in its own bank.
\<close>

definition add_symbol_label :: "(int \<rightharpoonup> bank) \<Rightarrow> int \<Rightarrow> int \<Rightarrow> string \<Rightarrow> error + (int \<rightharpoonup> bank)" where
  "add_symbol_label banks bank_no address label =
     (if address \<ge> 0x8000
      then Inr (\<lambda>n. map_option
                  (\<lambda>b. b\<lparr>labelled_addresses := (labelled_addresses b)(address \<mapsto> label)\<rparr>) (banks n))
      else on_success (lookup banks bank_no) (\<lambda>b.
             Inr (banks(bank_no \<mapsto> b\<lparr>labelled_addresses := (labelled_addresses b)(address \<mapsto> label)\<rparr>))))"

subsection \<open>Auxiliary notions for the decoder\<close>

text \<open>
  An operand string that is none of the eight operand kinds the decoder knows: the
  operand loop copies it to the operand texts (a register name, a condition, a bit
  number).
\<close>

definition plain_operand :: "string \<Rightarrow> bool" where
  "plain_operand operand \<longleftrightarrow>
     operand \<notin> set [''a16'', ''[a16]'', ''[$ff00+a8]'', ''d8'', ''d16'', ''r8'', ''pc+r8'', ''sp+r8'']"

text \<open>
  A ROM for the examples: the given bytes, with an excerpt of the opcode table of the
  processor (\<^verbatim>\<open>nop\<close>, \<^verbatim>\<open>stop\<close>, \<^verbatim>\<open>jr pc+r8\<close>, \<^verbatim>\<open>jr nz,pc+r8\<close>, \<^verbatim>\<open>halt\<close>,
  \<^verbatim>\<open>jp a16\<close>, \<^verbatim>\<open>call a16\<close>, \<^verbatim>\<open>ld [a16],a\<close>, \<^verbatim>\<open>ld a,[a16]\<close>).
\<close>

definition example_rom :: "8 word list \<Rightarrow> rom" where
  "example_rom bytes =
     \<lparr>data = bytes,
      has_ld_long = False,
      instruction_names =
        [0x00 \<mapsto> ''nop'', 0x10 \<mapsto> ''stop'', 0x18 \<mapsto> ''jr'', 0x20 \<mapsto> ''jr'', 0x76 \<mapsto> ''halt'',
         0xC3 \<mapsto> ''jp'', 0xCD \<mapsto> ''call'', 0xEA \<mapsto> ''ld'', 0xFA \<mapsto> ''ld''],
      instruction_operands =
        [0x00 \<mapsto> [], 0x10 \<mapsto> [], 0x18 \<mapsto> [''pc+r8''], 0x20 \<mapsto> [''nz'', ''pc+r8''], 0x76 \<mapsto> [],
         0xC3 \<mapsto> [''a16''], 0xCD \<mapsto> [''a16''], 0xEA \<mapsto> [''[a16]'', ''a''], 0xFA \<mapsto> [''a'', ''[a16]'']],
      cb_instruction_name = Map.empty,
      cb_instruction_operands = Map.empty\<rparr>"

text \<open>The name, the operand texts and the length of a decoded instruction.\<close>

definition decoded :: "error + decoding \<Rightarrow> error + (string \<times> string list \<times> int)" where
  "decoded m = on_success m (\<lambda>st. Inr (instruction_name st, operand_values st, length' st))"

text \<open>A bank with one more explicit label, and a decoder state over such a bank.\<close>

definition with_label :: "int \<Rightarrow> string \<Rightarrow> bank \<Rightarrow> bank" where
  "with_label address label b = b\<lparr>labelled_addresses := (labelled_addresses b)(address \<mapsto> label)\<rparr>"

definition with_label_in :: "int \<Rightarrow> string \<Rightarrow> decoding \<Rightarrow> decoding" where
  "with_label_in address label st = st\<lparr>self := with_label address label (self st)\<rparr>"

subsection \<open>The lines of a data region\<close>

text \<open>
  What \<^verbatim>\<open>process_data_in_range\<close> appends to the output, one item for every call of
  \<^verbatim>\<open>append_labels_to_output\<close> and of \<^verbatim>\<open>append_output(format_data(values))\<close>: the
  labels of an address, or a line of values with the address of its first value.
\<close>

datatype item = Labels int "string list" | DataLine int "string list"

text \<open>
  The loop of \<^verbatim>\<open>process_data_in_range\<close> again, collecting the items where the source
  appends to the output. At the head of the loop the values in \<open>vals\<close> are those of the
  \<open>length vals\<close> addresses before \<open>address\<close>, which gives every line its first address.
\<close>

fun data_lines :: "bank \<Rightarrow> rom \<Rightarrow> int \<Rightarrow> int list \<Rightarrow> string list \<Rightarrow> error + item list" where
  "data_lines b r end_address [] vals = Inr []"
| "data_lines b r end_address (address # addresses) vals =
     (let mem_address = rom_address_to_mem_address address
      in on_success (get_labels_for_non_code_address b mem_address) (\<lambda>labels.
           let (vals1, items1) =
                 (if length labels \<noteq> 0
                  then (if length vals > 0
                        then ([], [DataLine (address - int (length vals)) vals, Labels address labels])
                        else (vals, [Labels address labels]))
                  else (vals, []))
           in on_success (data_at r address) (\<lambda>byte.
                let vals2 = vals1 @ [hex_byte byte]
                in if length vals2 = 16 \<or> (address = end_address - 1 \<and> length vals2 \<noteq> 0)
                   then on_success (data_lines b r end_address addresses []) (\<lambda>items.
                          Inr (items1 @ [DataLine (address + 1 - int (length vals2)) vals2] @ items))
                   else on_success (data_lines b r end_address addresses vals2) (\<lambda>items.
                          Inr (items1 @ items)))))"

text \<open>The output of the items.\<close>

fun render :: "item list \<Rightarrow> bank \<Rightarrow> bank" where
  "render [] b = b"
| "render (Labels address labels # items) b = render items (append_labels_to_output labels b)"
| "render (DataLine address vals # items) b = render items (append_output (format_data vals) b)"

text \<open>
  A line of a data region is well formed when it holds between 1 and 16 values and no
  address after its first one has a label.
\<close>

fun line_ok :: "bank \<Rightarrow> item \<Rightarrow> bool" where
  "line_ok b (Labels address labels) = True"
| "line_ok b (DataLine address vals) =
     (1 \<le> length vals \<and> length vals \<le> 16 \<and>
      (\<forall>k \<in> {1..<length vals}.
         labelled_addresses b (rom_address_to_mem_address (address + int k)) = None))"

text \<open>
  The items follow each other from address \<open>a\<close> on: every item carries the address the
  items before it have reached, and a line of values advances it by its length.
\<close>

fun lines_from :: "int \<Rightarrow> item list \<Rightarrow> bool" where
  "lines_from a [] = True"
| "lines_from a (Labels address labels # items) = (address = a \<and> lines_from a items)"
| "lines_from a (DataLine address vals # items) =
     (address = a \<and> lines_from (a + int (length vals)) items)"

subsection \<open>Text regions\<close>

text \<open>\<^verbatim>\<open>'"{}"'.format(text)\<close>: the text between two double quotes.\<close>

definition quoted :: "string \<Rightarrow> string" where
  "quoted txt = [CHR 0x22] @ txt @ [CHR 0x22]"

text \<open>
  The loop of \<^verbatim>\<open>process_text_in_range\<close> over \<^verbatim>\<open>range(start_address, end_address)\<close>;
  \<open>vals\<close> is the list \<^verbatim>\<open>values\<close> and \<open>txt\<close> the string \<^verbatim>\<open>text\<close>. The result holds
  both with the bank, for the two tests after the loop.
\<close>

fun text_loop :: "rom \<Rightarrow> int list \<Rightarrow> string list \<Rightarrow> string \<Rightarrow> bank \<Rightarrow> error + (string list \<times> string \<times> bank)" where
  "text_loop r [] vals txt b = Inr (vals, txt, b)"
| "text_loop r (address # addresses) vals txt b =
     (let mem_address = rom_address_to_mem_address address
      in on_success (get_labels_for_non_code_address b mem_address) (\<lambda>labels.
           let (vals1, txt1, b1) =
                 (if length labels \<noteq> 0
                  then let (vals', txt') = (if length txt \<noteq> 0 then (vals @ [quoted txt], [])
                                            else (vals, txt));
                           (vals'', b') = (if length vals' \<noteq> 0
                                           then ([], append_output (format_data vals') b)
                                           else (vals', b))
                       in (vals'', txt', append_labels_to_output labels b')
                  else (vals, txt, b))
           in on_success (data_at r address) (\<lambda>byte.
                if byte \<ge> 0x20 \<and> byte < 0x7F
                then text_loop r addresses vals1 (txt1 @ [char_of byte]) b1
                else let (vals2, txt2) = (if length txt1 \<noteq> 0 then (vals1 @ [quoted txt1], [])
                                          else (vals1, txt1))
                     in text_loop r addresses (vals2 @ [hex_byte byte]) txt2 b1)))"

definition process_text_in_range :: "bank \<Rightarrow> rom \<Rightarrow> int \<Rightarrow> int \<Rightarrow> error + bank" where
  "process_text_in_range b r start_address end_address =
     on_success (text_loop r [start_address..end_address - 1] [] [] b) (\<lambda>(vals, txt, b1).
       let vals1 = (if length txt \<noteq> 0 then vals @ [quoted txt] else vals)
       in if length vals1 \<noteq> 0 then Inr (append_output (format_data vals1) b1) else Inr b1)"

subsection \<open>Auxiliary notions for the region map\<close>

definition covers :: "(int \<times> block) list \<Rightarrow> int \<Rightarrow> nat" where
  "covers rs a = length (filter (\<lambda>r. block_covers r a) rs)"

definition inv_resolved :: "int \<Rightarrow> int \<Rightarrow> blocks \<Rightarrow> bool" where
  "inv_resolved base lo acc \<longleftrightarrow>
     distinct (map fst acc) \<and> (\<forall>k \<in> fst ` set acc. k < lo) \<and>
     (\<forall>a. covers acc a = (if base \<le> a \<and> a < lo then 1 else 0))"

text \<open>
  What \<^verbatim>\<open>Bank.__init__\<close> and \<^verbatim>\<open>add_block\<close> keep true of the hints: one entry for
  every start address, an entry at the base address, and no entry below it.
\<close>

definition wf_blocks :: "int \<Rightarrow> blocks \<Rightarrow> bool" where
  "wf_blocks base bs \<longleftrightarrow>
     distinct (map fst bs) \<and> base \<in> fst ` set bs \<and> (\<forall>k \<in> fst ` set bs. base \<le> k)"

text \<open>
  The end of the hint with the greatest start address, the only one that
  \<^verbatim>\<open>resolve_blocks\<close> does not cut at the start of a next hint.
\<close>

definition last_end :: "bank \<Rightarrow> int" where
  "last_end b =
     (let k = last (sort (map fst (blocks b)))
      in k + block_length (the (map_of (blocks b) k)))"

text \<open>
  The kind and length given by the last call of a sequence of \<^verbatim>\<open>add_block\<close> calls
  whose start address is \<open>a\<close>, if there is one.
\<close>

fun last_hint :: "int \<Rightarrow> (int \<times> block_type \<times> int) list \<Rightarrow> (block_type \<times> int) option" where
  "last_hint a [] = None"
| "last_hint a ((address, ty, len) # hints) =
     (case last_hint a hints of
        Some h \<Rightarrow> Some h
      | None \<Rightarrow> if address = a then Some (ty, len) else None)"


section \<open>The region map\<close>

lemma covers_Nil: "covers [] a = 0"
  by (simp add: covers_def)

lemma covers_append: "covers (xs @ ys) a = covers xs a + covers ys a"
  by (simp add: covers_def)

lemma covers_single:
  "covers [(k, v)] a = (if k \<le> a \<and> a < k + block_length v then 1 else 0)"
  by (simp add: covers_def block_covers_def)

lemma covers_pair:
  "covers [(k, v), (k', v')] a =
     (if k \<le> a \<and> a < k + block_length v then 1 else 0) +
     (if k' \<le> a \<and> a < k' + block_length v' then 1 else 0)"
  by (simp add: covers_def block_covers_def)

lemma covers_mset: "mset xs = mset ys \<Longrightarrow> covers xs a = covers ys a"
proof -
  assume "mset xs = mset ys"
  then have "mset (filter (\<lambda>r. block_covers r a) xs) = mset (filter (\<lambda>r. block_covers r a) ys)"
    by simp
  then show ?thesis
    unfolding covers_def by (metis size_mset)
qed

lemma update_append_split:
  "AList.update k v (xs @ ys) =
     (if k \<in> fst ` set xs then AList.update k v xs @ ys else xs @ AList.update k v ys)"
  by (induction xs) auto

lemma update_fresh: "k \<notin> fst ` set al \<Longrightarrow> AList.update k v al = al @ [(k, v)]"
  by (induction al) auto

lemma items_of_distinct:
  assumes "distinct (map fst al)"
  shows "map (\<lambda>k. (k, the (map_of al k))) (map fst al) = al"
proof -
  have "\<And>p. p \<in> set al \<Longrightarrow> (fst p, the (map_of al (fst p))) = p"
    using assms by (metis map_of_eq_Some_iff option.sel prod.collapse)
  then show ?thesis
    by (simp add: map_idI)
qed

lemma mset_sorted_items:
  assumes "distinct (map fst al)"
  shows "mset (map (\<lambda>k. (k, the (map_of al k))) (sort (map fst al))) = mset al"
proof -
  have "mset (map (\<lambda>k. (k, the (map_of al k))) (sort (map fst al)))
        = mset (map (\<lambda>k. (k, the (map_of al k))) (map fst al))"
    by (simp only: mset_map mset_sort)
  then show ?thesis
    using assms by (simp only: items_of_distinct)
qed

lemma resolve_step_next:
  assumes inv: "inv_resolved base s acc" and "base \<le> s" and "s < n"
    and len: "0 \<le> block_length (the (map_of bs s))"
  shows "inv_resolved base n (resolve_step base bs s (n # rest) acc)"
proof -
  have fresh: "\<And>k. s \<le> k \<Longrightarrow> k \<notin> fst ` set acc"
    using inv unfolding inv_resolved_def by force
  have d: "distinct (map fst acc)" and c: "\<And>a. covers acc a = (if base \<le> a \<and> a < s then 1 else 0)"
    and kb: "\<And>k v. (k, v) \<in> set acc \<Longrightarrow> k < s"
    using inv unfolding inv_resolved_def by force+
  define l where "l = block_length (the (map_of bs s))"
  define t where "t = block_type (the (map_of bs s))"
  consider (zero) "l = 0" | (short) "0 < l" "s + l < n" | (long) "0 < l" "n \<le> s + l"
    using len l_def by linarith
  then show ?thesis
  proof cases
    case zero
    then have "resolve_step base bs s (n # rest) acc
                 = acc @ [(s, \<lparr>block_type = Code, block_length = n - s\<rparr>)]"
      using \<open>s < n\<close> fresh[of s]
      by (simp add: resolve_step_def Let_def l_def[symmetric] update_fresh update_append_split)
    then show ?thesis
      using d c kb fresh[of s] \<open>s < n\<close> \<open>base \<le> s\<close>
      by (auto simp: inv_resolved_def covers_append covers_single covers_pair dest: kb)
  next
    case short
    then have "resolve_step base bs s (n # rest) acc
                 = acc @ [(s, \<lparr>block_type = t, block_length = l\<rparr>),
                          (s + l, \<lparr>block_type = Code, block_length = n - (s + l)\<rparr>)]"
      using \<open>s < n\<close> fresh[of s] fresh[of "s + l"]
      by (simp add: resolve_step_def Let_def l_def[symmetric] t_def[symmetric]
            update_fresh update_append_split)
    then show ?thesis
      using d c kb fresh[of s] fresh[of "s + l"] short \<open>s < n\<close> \<open>base \<le> s\<close>
      by (auto simp: inv_resolved_def covers_append covers_single covers_pair dest: kb)
  next
    case long
    then have "resolve_step base bs s (n # rest) acc
                 = acc @ [(s, \<lparr>block_type = t, block_length = n - s\<rparr>)]"
      using \<open>s < n\<close> fresh[of s]
      by (simp add: resolve_step_def Let_def l_def[symmetric] t_def[symmetric] update_fresh)
    then show ?thesis
      using d c kb fresh[of s] \<open>s < n\<close> \<open>base \<le> s\<close>
      by (auto simp: inv_resolved_def covers_append covers_single covers_pair dest: kb)
  qed
qed

lemma resolve_step_last:
  assumes inv: "inv_resolved base s acc" and "base \<le> s"
    and len: "0 \<le> block_length (the (map_of bs s))"
  shows "distinct (map fst (resolve_step base bs s [] acc)) \<and>
         (\<forall>a. covers (resolve_step base bs s [] acc) a
                 = (if base \<le> a \<and>
                       a < max (base + 0x4000) (s + block_length (the (map_of bs s)))
                    then 1 else 0))"
proof -
  have fresh: "\<And>k. s \<le> k \<Longrightarrow> k \<notin> fst ` set acc"
    using inv unfolding inv_resolved_def by force
  have d: "distinct (map fst acc)" and c: "\<And>a. covers acc a = (if base \<le> a \<and> a < s then 1 else 0)"
    using inv unfolding inv_resolved_def by auto
  define l where "l = block_length (the (map_of bs s))"
  define t where "t = block_type (the (map_of bs s))"
  consider (full) "s + l = base + 0x4000" | (zero) "l = 0" "s \<noteq> base + 0x4000"
    | (pos) "0 < l" "s + l \<noteq> base + 0x4000"
    using len l_def by linarith
  then show ?thesis
  proof cases
    case full
    then have "resolve_step base bs s [] acc = acc @ [(s, \<lparr>block_type = t, block_length = l\<rparr>)]"
      using fresh[of s]
      by (simp add: resolve_step_def Let_def l_def[symmetric] t_def[symmetric] update_fresh)
    then show ?thesis
      using d c fresh[of s] full \<open>base \<le> s\<close> len
      unfolding l_def[symmetric]
      by (auto simp: covers_append covers_single)
  next
    case zero
    then have "resolve_step base bs s [] acc
                 = acc @ [(s, \<lparr>block_type = Code, block_length = base + 0x4000 - s\<rparr>)]"
      using fresh[of s]
      by (simp add: resolve_step_def Let_def l_def[symmetric] update_fresh update_append_split)
    then show ?thesis
      using d c fresh[of s] zero \<open>base \<le> s\<close>
      unfolding l_def[symmetric]
      by (auto simp: covers_append covers_single)
  next
    case pos
    then have "resolve_step base bs s [] acc
                 = acc @ [(s, \<lparr>block_type = t, block_length = l\<rparr>),
                          (s + l, \<lparr>block_type = Code, block_length = base + 0x4000 - (s + l)\<rparr>)]"
      using fresh[of s] fresh[of "s + l"]
      by (simp add: resolve_step_def Let_def l_def[symmetric] t_def[symmetric]
            update_fresh update_append_split)
    then show ?thesis
      using d c fresh[of s] fresh[of "s + l"] pos \<open>base \<le> s\<close>
      unfolding l_def[symmetric]
      by (auto simp: covers_append covers_single covers_pair)
  qed
qed

lemma resolve_loop_partition:
  assumes "sorted_wrt (<) (s # rest)" and "inv_resolved base s acc" and "base \<le> s"
    and "\<forall>k \<in> set (s # rest). 0 \<le> block_length (the (map_of bs k))"
  shows "distinct (map fst (resolve_loop base bs (s # rest) acc)) \<and>
         (\<forall>a. covers (resolve_loop base bs (s # rest) acc) a
                 = (if base \<le> a \<and>
                       a < max (base + 0x4000)
                             (last (s # rest) + block_length (the (map_of bs (last (s # rest)))))
                    then 1 else 0))"
  using assms
proof (induction rest arbitrary: s acc)
  case Nil
  then show ?case
    using resolve_step_last[of base s acc bs] by simp
next
  case (Cons n rest)
  have step: "inv_resolved base n (resolve_step base bs s (n # rest) acc)"
    using Cons.prems resolve_step_next[of base s acc n bs rest] by simp
  have "sorted_wrt (<) (n # rest)" and "base \<le> n"
    using Cons.prems by auto
  then show ?case
    using Cons.IH[OF _ step] Cons.prems(4) by simp
qed

lemma set_update_subset: "set (AList.update k v al) \<subseteq> insert (k, v) (set al)"
  by (induction al) auto

lemma wf_blocks_update:
  assumes "wf_blocks base bs" and "base \<le> k"
  shows "wf_blocks base (AList.update k v bs)"
  using assms by (auto simp: wf_blocks_def distinct_update dom_update)

lemma memory_base_address_add_block:
  "memory_base_address (add_block address ty len b) = memory_base_address b"
  by (simp add: add_block_def)

lemma wf_blocks_add_blocks:
  assumes "wf_blocks (memory_base_address b) (blocks b)"
  shows "wf_blocks (memory_base_address b) (blocks (add_blocks b hints)) \<and>
         memory_base_address (add_blocks b hints) = memory_base_address b"
  using assms
proof (induction b hints rule: add_blocks.induct)
  case (1 b)
  then show ?case by simp
next
  case (2 b address ty len hints)
  have "wf_blocks (memory_base_address b) (blocks (add_block address ty len b))"
    using "2.prems" by (auto simp: add_block_def wf_blocks_update)
  then show ?case
    using "2.IH" by (simp add: memory_base_address_add_block)
qed

lemma wf_blocks_Bank: "wf_blocks (memory_base_address (Bank n)) (blocks (Bank n))"
  by (simp add: Bank_def add_block_def wf_blocks_def)

lemma sort_keys_Cons:
  assumes "wf_blocks base bs"
  shows "\<exists>rest. sort (map fst bs) = base # rest"
proof -
  have mem: "base \<in> set (sort (map fst bs))"
    using assms by (simp add: wf_blocks_def)
  then obtain s rest where sr: "sort (map fst bs) = s # rest"
    by (cases "sort (map fst bs)") auto
  have "sorted (s # rest)"
    using sorted_sort[of "map fst bs"] sr by simp
  then have "s \<le> base"
    using mem sr by auto
  moreover have "s \<in> set (map fst bs)"
    using sr by (metis list.set_intros(1) set_sort)
  then have "base \<le> s"
    using assms by (auto simp: wf_blocks_def)
  ultimately show ?thesis
    using sr by simp
qed

lemma nonneg_lookup:
  assumes "distinct (map fst bs)" and "\<forall>(k, blk) \<in> set bs. 0 \<le> block_length blk"
    and "k \<in> set (map fst bs)"
  shows "0 \<le> block_length (the (map_of bs k))"
proof -
  obtain v where v: "(k, v) \<in> set bs"
    using assms(3) by auto
  then have "map_of bs k = Some v"
    using assms(1) by simp
  then show ?thesis
    using assms(2) v by auto
qed

lemma resolve_blocks_wf:
  assumes "wf_blocks (memory_base_address b) (blocks b)"
    and "\<forall>(k, blk) \<in> set (blocks b). 0 \<le> block_length blk"
  shows "distinct (map fst (blocks (resolve_blocks b))) \<and>
         (\<forall>a. covers (blocks (resolve_blocks b)) a
                 = (if memory_base_address b \<le> a \<and>
                       a < max (memory_base_address b + 0x4000) (last_end b)
                    then 1 else 0))"
proof -
  let ?base = "memory_base_address b"
  obtain rest where sr: "sort (map fst (blocks b)) = ?base # rest"
    using sort_keys_Cons[OF assms(1)] by blast
  have dk: "distinct (map fst (blocks b))"
    using assms(1) by (simp add: wf_blocks_def)
  then have "distinct (sort (map fst (blocks b)))"
    by simp
  then have strict: "sorted_wrt (<) (?base # rest)"
    using sorted_sort[of "map fst (blocks b)"] sr by (simp only: strict_sorted_iff)
  have inv0: "inv_resolved ?base ?base []"
    by (simp add: inv_resolved_def covers_Nil)
  have lens: "\<forall>k \<in> set (?base # rest). 0 \<le> block_length (the (map_of (blocks b) k))"
  proof
    fix k assume "k \<in> set (?base # rest)"
    then have "k \<in> set (map fst (blocks b))"
      using sr by (metis set_sort)
    then show "0 \<le> block_length (the (map_of (blocks b) k))"
      by (rule nonneg_lookup[OF dk assms(2)])
  qed
  have le: "last_end b = last (?base # rest)
                           + block_length (the (map_of (blocks b) (last (?base # rest))))"
    by (simp add: last_end_def sr Let_def)
  show ?thesis
    using resolve_loop_partition[OF strict inv0 _ lens] sr
    unfolding le by (simp add: resolve_blocks_def)
qed

lemma sorted_blocks_props:
  assumes "distinct (map fst (blocks b))"
  shows "sorted_wrt (<) (map fst (sorted_blocks b))"
    and "cover_count b a = covers (blocks b) a"
proof -
  have "map fst (sorted_blocks b) = sort (map fst (blocks b))"
    by (simp add: sorted_blocks_def comp_def)
  then show "sorted_wrt (<) (map fst (sorted_blocks b))"
    using assms by (simp add: strict_sorted_iff)
  have "mset (sorted_blocks b) = mset (blocks b)"
    unfolding sorted_blocks_def by (rule mset_sorted_items[OF assms])
  then show "cover_count b a = covers (blocks b) a"
    unfolding cover_count_def covers_def[symmetric] by (rule covers_mset)
qed

text \<open>
  Claim C1, as amended. For every bank and every sequence of \<^verbatim>\<open>add_block\<close> calls, when
  no hint left in the table has a negative length, then after \<^verbatim>\<open>resolve_blocks\<close> the
  region list is strictly sorted by start address, no address lies in two regions, and
  every address of the window \<open>[base, base + 0x4000)\<close> lies in exactly one region. The
  regions cover the addresses from \<open>base\<close> up to \<open>base + 0x4000\<close>, or up to the end of
  the hint with the greatest start address when that end is beyond the window.
\<close>

theorem resolve_blocks_partition:
  assumes "\<forall>(address, blk) \<in> set (blocks (add_blocks (Bank n) hints)). 0 \<le> block_length blk"
  shows "sorted_wrt (<) (map fst (sorted_blocks (resolve_blocks (add_blocks (Bank n) hints)))) \<and>
         (\<forall>a. cover_count (resolve_blocks (add_blocks (Bank n) hints)) a \<le> 1) \<and>
         (\<forall>a. memory_base_address (Bank n) \<le> a \<and> a < memory_base_address (Bank n) + 0x4000
                \<longrightarrow> cover_count (resolve_blocks (add_blocks (Bank n) hints)) a = 1) \<and>
         (\<forall>a. cover_count (resolve_blocks (add_blocks (Bank n) hints)) a
                 = (if memory_base_address (Bank n) \<le> a \<and>
                       a < max (memory_base_address (Bank n) + 0x4000)
                             (last_end (add_blocks (Bank n) hints))
                    then 1 else 0))"
proof -
  let ?b = "add_blocks (Bank n) hints"
  have wf: "wf_blocks (memory_base_address ?b) (blocks ?b)"
    and base: "memory_base_address ?b = memory_base_address (Bank n)"
    using wf_blocks_add_blocks[OF wf_blocks_Bank] by simp_all
  have res: "distinct (map fst (blocks (resolve_blocks ?b)))"
    "\<And>a. covers (blocks (resolve_blocks ?b)) a
            = (if memory_base_address (Bank n) \<le> a \<and>
                  a < max (memory_base_address (Bank n) + 0x4000) (last_end ?b)
               then 1 else 0)"
    using resolve_blocks_wf[OF wf assms] base by simp_all
  have cc: "\<And>a. cover_count (resolve_blocks ?b) a
            = (if memory_base_address (Bank n) \<le> a \<and>
                  a < max (memory_base_address (Bank n) + 0x4000) (last_end ?b)
               then 1 else 0)"
    using sorted_blocks_props(2)[OF res(1)] res(2) by simp
  have "sorted_wrt (<) (map fst (sorted_blocks (resolve_blocks ?b)))"
    by (rule sorted_blocks_props(1)[OF res(1)])
  then show ?thesis
    using cc by (auto simp: max_def)
qed

theorem resolve_blocks_partition_witness:
  "sorted_blocks (resolve_blocks (add_blocks (Bank 1) [(0x4000, Data, 0x5000), (0x4008, Code, 0x10)]))
     = [(0x4000, \<lparr>block_type = Data, block_length = 8\<rparr>),
        (0x4008, \<lparr>block_type = Code, block_length = 0x10\<rparr>),
        (0x4018, \<lparr>block_type = Code, block_length = 0x3fe8\<rparr>)] \<and>
   cover_count (resolve_blocks (add_blocks (Bank 1) [(0x4000, Data, 0x5000), (0x4008, Code, 0x10)]))
       0x4009 = 1 \<and>
   cover_count (resolve_blocks (add_blocks (Bank 1) [(0x4000, Data, 0x5000), (0x4008, Code, 0x10)]))
       0x8000 = 0"
proof -
  let ?b = "add_blocks (Bank 1) [(0x4000, Data, 0x5000), (0x4008, Code, 0x10)]"
  have h: "\<forall>(address, blk) \<in> set (blocks ?b). 0 \<le> block_length blk"
    by (simp add: Bank_def add_block_def)
  have e: "sorted_blocks (resolve_blocks ?b)
     = [(0x4000, \<lparr>block_type = Data, block_length = 8\<rparr>),
        (0x4008, \<lparr>block_type = Code, block_length = 0x10\<rparr>),
        (0x4018, \<lparr>block_type = Code, block_length = 0x3fe8\<rparr>)]"
    by (simp add: sorted_blocks_def resolve_blocks_def Bank_def add_block_def resolve_step_def)
  have m: "memory_base_address (Bank 1) = 0x4000" "last_end ?b = 0x4018"
    by (simp_all add: Bank_def add_block_def last_end_def)
  show ?thesis
    using resolve_blocks_partition[OF h] e m by simp
qed

text \<open>
  Claim C1 as stated, for any set of recorded hints, fails: a symbol such as
  \<^verbatim>\<open>01:4010 .data:-8\<close> gives bank 1 the hint \<open>(0x4010, data, -8)\<close>, the filler after
  it starts at \<open>0x4008\<close>, and the addresses from \<open>0x4008\<close> to \<open>0x400f\<close> of the window
  lie in two regions.
\<close>

theorem resolve_blocks_negative_hint:
  "sorted_blocks (resolve_blocks (add_blocks (Bank 1) [(0x4010, Data, - 8)]))
     = [(0x4000, \<lparr>block_type = Code, block_length = 0x10\<rparr>),
        (0x4008, \<lparr>block_type = Code, block_length = 0x3ff8\<rparr>),
        (0x4010, \<lparr>block_type = Data, block_length = - 8\<rparr>)] \<and>
   memory_base_address (Bank 1) \<le> 0x4008 \<and> 0x4008 < memory_base_address (Bank 1) + 0x4000 \<and>
   cover_count (resolve_blocks (add_blocks (Bank 1) [(0x4010, Data, - 8)])) 0x4008 = 2"
  by (simp add: cover_count_def sorted_blocks_def resolve_blocks_def Bank_def add_block_def
        resolve_step_def block_covers_def)

text \<open>
  Claim C4, as amended. \<^verbatim>\<open>add_block(address, type, length)\<close> records the hint if and
  only if \<open>address\<close> is at or above the bank's base address: then the hint is stored under
  \<open>address\<close> and no other key changes; an address below the base leaves the bank
  unchanged. There is no upper bound.
\<close>

theorem add_block_records_iff:
  "(memory_base_address b \<le> address \<longrightarrow>
      map_of (blocks (add_block address ty len b)) address
        = Some \<lparr>block_type = ty, block_length = len\<rparr> \<and>
      (\<forall>k. k \<noteq> address \<longrightarrow>
         map_of (blocks (add_block address ty len b)) k = map_of (blocks b) k)) \<and>
   (address < memory_base_address b \<longrightarrow> add_block address ty len b = b)"
  by (simp add: add_block_def update_conv')

theorem add_block_records_iff_witness:
  "map_of (blocks (add_block 0x4010 Data 0x20 (Bank 1))) 0x4010
     = Some \<lparr>block_type = Data, block_length = 0x20\<rparr> \<and>
   map_of (blocks (add_block 0x4010 Data 0x20 (Bank 1))) 0x4000 = map_of (blocks (Bank 1)) 0x4000 \<and>
   add_block 0x3fff Data 0x20 (Bank 1) = Bank 1"
proof -
  have m: "memory_base_address (Bank 1) = 0x4000"
    by (simp add: Bank_def add_block_def)
  show ?thesis
    using add_block_records_iff[of "Bank 1" "0x4010" Data "0x20"]
      add_block_records_iff[of "Bank 1" "0x3fff" Data "0x20"] m
    by simp
qed

text \<open>
  Claim C4 as stated fails above the window: bank 0 has the window \<open>[0, 0x4000)\<close>, and a
  hint at \<open>0x4000\<close> is recorded.
\<close>

theorem add_block_above_window:
  "memory_base_address (Bank 0) = 0 \<and>
   map_of (blocks (add_block 0x4000 Data 0x10 (Bank 0))) 0x4000
     = Some \<lparr>block_type = Data, block_length = 0x10\<rparr> \<and>
   add_block 0x4000 Data 0x10 (Bank 0) \<noteq> Bank 0"
proof -
  have "blocks (add_block 0x4000 Data 0x10 (Bank 0)) \<noteq> blocks (Bank 0)"
    by (simp add: Bank_def add_block_def)
  then have "add_block 0x4000 Data 0x10 (Bank 0) \<noteq> Bank 0"
    by metis
  then show ?thesis
    by (simp add: Bank_def add_block_def)
qed

lemma add_block_fields:
  "add_block address ty len b = b\<lparr>blocks := blocks (add_block address ty len b)\<rparr>"
  by (simp add: add_block_def)

lemma add_blocks_fields:
  "add_blocks b hints = b\<lparr>blocks := blocks (add_blocks b hints)\<rparr>"
proof (induction hints arbitrary: b)
  case Nil
  show ?case by simp
next
  case (Cons h hints)
  obtain address ty len where h: "h = (address, ty, len)"
    by (cases h) auto
  have "add_blocks (add_block address ty len b) hints
          = (add_block address ty len b)\<lparr>blocks := blocks (add_blocks (add_block address ty len b) hints)\<rparr>"
    by (rule Cons.IH)
  then show ?case
    unfolding h by (simp add: add_block_def split: if_splits)
qed

lemma add_blocks_append:
  "add_blocks b (xs @ ys) = add_blocks (add_blocks b xs) ys"
  by (induction xs arbitrary: b) auto

lemma add_blocks_base [simp]:
  "memory_base_address (add_blocks b hints) = memory_base_address b"
  by (induction hints arbitrary: b) (auto simp: add_block_def)

lemma map_of_add_block:
  "map_of (blocks (add_block address ty len b)) a =
     (if memory_base_address b \<le> address \<and> address = a
      then Some \<lparr>block_type = ty, block_length = len\<rparr> else map_of (blocks b) a)"
  by (simp add: add_block_def update_conv')

lemma map_of_add_blocks:
  "map_of (blocks (add_blocks b hints)) a =
     (case (if memory_base_address b \<le> a then last_hint a hints else None) of
        Some (ty, len) \<Rightarrow> Some \<lparr>block_type = ty, block_length = len\<rparr>
      | None \<Rightarrow> map_of (blocks b) a)"
proof (induction hints arbitrary: b)
  case Nil
  show ?case by simp
next
  case (Cons h hints)
  obtain address ty len where h: "h = (address, ty, len)"
    by (cases h) auto
  have base: "memory_base_address (add_block address ty len b) = memory_base_address b"
    by (simp add: add_block_def)
  show ?case
    unfolding h add_blocks.simps Cons.IH base
    by (simp add: map_of_add_block split: option.splits)
qed

lemma last_hint_append:
  "last_hint a (xs @ ys) = (case last_hint a ys of Some h \<Rightarrow> Some h | None \<Rightarrow> last_hint a xs)"
  by (induction xs) (auto split: option.splits)

lemma last_hint_overwritten:
  "last_hint a (hints1 @ (address, ty1, len1) # hints2 @ (address, ty2, len2) # hints3)
     = last_hint a (hints1 @ hints2 @ (address, ty2, len2) # hints3)"
  by (simp add: last_hint_append split: option.splits)

lemma sort_keys_eq:
  assumes "distinct (map fst xs)" "distinct (map fst ys)" "map_of xs = map_of ys"
  shows "sort (map fst xs) = sort (map fst ys)"
proof -
  have "set (map fst xs) = set (map fst ys)"
    using assms(3) by (metis dom_map_of_conv_image_fst set_map)
  then show ?thesis
    using assms(1,2)
    by (intro sorted_distinct_set_unique) simp_all
qed

lemma resolve_step_cong:
  "map_of bs = map_of bs' \<Longrightarrow> resolve_step base bs s rest acc = resolve_step base bs' s rest acc"
  by (simp add: resolve_step_def)

lemma resolve_loop_cong:
  "map_of bs = map_of bs' \<Longrightarrow> resolve_loop base bs ks acc = resolve_loop base bs' ks acc"
  by (induction ks arbitrary: acc) (simp_all add: resolve_step_cong[of bs bs'])

lemma same_hints_same_regions:
  assumes "map_of (blocks (add_blocks b hs)) = map_of (blocks (add_blocks b hs'))"
    and "distinct (map fst (blocks (add_blocks b hs)))"
    and "distinct (map fst (blocks (add_blocks b hs')))"
  shows "sorted_blocks (add_blocks b hs) = sorted_blocks (add_blocks b hs')"
    and "resolve_blocks (add_blocks b hs) = resolve_blocks (add_blocks b hs')"
proof -
  have k: "sort (map fst (blocks (add_blocks b hs))) = sort (map fst (blocks (add_blocks b hs')))"
    by (rule sort_keys_eq[OF assms(2,3,1)])
  show "sorted_blocks (add_blocks b hs) = sorted_blocks (add_blocks b hs')"
    by (simp add: sorted_blocks_def k assms(1))
  have "resolve_blocks (add_blocks b hs)
          = b\<lparr>blocks := resolve_loop (memory_base_address b) (blocks (add_blocks b hs))
                          (sort (map fst (blocks (add_blocks b hs)))) []\<rparr>"
    unfolding resolve_blocks_def by (subst add_blocks_fields) simp
  moreover have "resolve_blocks (add_blocks b hs')
          = b\<lparr>blocks := resolve_loop (memory_base_address b) (blocks (add_blocks b hs'))
                          (sort (map fst (blocks (add_blocks b hs')))) []\<rparr>"
    unfolding resolve_blocks_def by (subst add_blocks_fields) simp
  ultimately show "resolve_blocks (add_blocks b hs) = resolve_blocks (add_blocks b hs')"
    using k resolve_loop_cong[OF assms(1)] by simp
qed

lemma distinct_add_blocks:
  "distinct (map fst (blocks b)) \<Longrightarrow> distinct (map fst (blocks (add_blocks b hints)))"
  by (induction hints arbitrary: b) (auto simp: add_block_def distinct_update)

text \<open>
  Claim C10. Hints are keyed by start address. After any sequence of \<^verbatim>\<open>add_block\<close>
  calls the table has one entry for every start address, and the entry of an address at
  or above the base holds the kind and length of the last call with that address (the
  entry the bank had before, when no call has that address). Of two calls with the same
  start address, with any calls before, between and after them, the earlier one leaves
  no trace: the table maps every address to the same hint as without the earlier call,
  the sorted hints are the same, and \<^verbatim>\<open>resolve_blocks\<close> gives the same bank. When the
  two calls follow each other the bank is the one the later call alone gives. A hint at
  the bank's base address replaces the whole-bank code region of the constructor, the only
  entry of a new bank.
\<close>

theorem add_block_overwrites:
  assumes "distinct (map fst (blocks b))"
  shows "distinct (map fst (blocks (add_blocks b hints))) \<and>
         map_of (blocks (add_blocks b hints)) a =
           (case (if memory_base_address b \<le> a then last_hint a hints else None) of
              Some (ty', len') \<Rightarrow> Some \<lparr>block_type = ty', block_length = len'\<rparr>
            | None \<Rightarrow> map_of (blocks b) a) \<and>
         map_of (blocks (add_blocks b
                   (hints1 @ (address, ty1, len1) # hints2 @ (address, ty2, len2) # hints3)))
           = map_of (blocks (add_blocks b (hints1 @ hints2 @ (address, ty2, len2) # hints3))) \<and>
         sorted_blocks (add_blocks b
             (hints1 @ (address, ty1, len1) # hints2 @ (address, ty2, len2) # hints3))
           = sorted_blocks (add_blocks b (hints1 @ hints2 @ (address, ty2, len2) # hints3)) \<and>
         resolve_blocks (add_blocks b
             (hints1 @ (address, ty1, len1) # hints2 @ (address, ty2, len2) # hints3))
           = resolve_blocks (add_blocks b (hints1 @ hints2 @ (address, ty2, len2) # hints3)) \<and>
         add_block address ty2 len2 (add_block address ty1 len1 b) = add_block address ty2 len2 b \<and>
         blocks (Bank n) = [(memory_base_address (Bank n), \<lparr>block_type = Code, block_length = 0x4000\<rparr>)] \<and>
         blocks (add_block (memory_base_address (Bank n)) ty len (Bank n))
           = [(memory_base_address (Bank n), \<lparr>block_type = ty, block_length = len\<rparr>)] \<and>
         map_of (blocks (add_blocks (Bank n) hints)) (memory_base_address (Bank n)) =
           (case last_hint (memory_base_address (Bank n)) hints of
              Some (ty', len') \<Rightarrow> Some \<lparr>block_type = ty', block_length = len'\<rparr>
            | None \<Rightarrow> Some \<lparr>block_type = Code, block_length = 0x4000\<rparr>)"
proof -
  let ?old = "hints1 @ (address, ty1, len1) # hints2 @ (address, ty2, len2) # hints3"
  let ?new = "hints1 @ hints2 @ (address, ty2, len2) # hints3"
  have m: "map_of (blocks (add_blocks b ?old)) = map_of (blocks (add_blocks b ?new))"
  proof
    fix k
    show "map_of (blocks (add_blocks b ?old)) k = map_of (blocks (add_blocks b ?new)) k"
      unfolding map_of_add_blocks last_hint_overwritten ..
  qed
  have d: "distinct (map fst (blocks (add_blocks b ?old)))"
    "distinct (map fst (blocks (add_blocks b ?new)))"
    using assms by (rule distinct_add_blocks)+
  have base: "map_of (blocks (add_blocks (Bank n) hints)) (memory_base_address (Bank n)) =
           (case last_hint (memory_base_address (Bank n)) hints of
              Some (ty', len') \<Rightarrow> Some \<lparr>block_type = ty', block_length = len'\<rparr>
            | None \<Rightarrow> Some \<lparr>block_type = Code, block_length = 0x4000\<rparr>)"
    unfolding map_of_add_blocks by (simp add: Bank_def add_block_def split: option.splits)
  have two: "add_block address ty2 len2 (add_block address ty1 len1 b) = add_block address ty2 len2 b"
    by (simp add: add_block_def)
  have new: "blocks (Bank n) = [(memory_base_address (Bank n), \<lparr>block_type = Code, block_length = 0x4000\<rparr>)]"
    "blocks (add_block (memory_base_address (Bank n)) ty len (Bank n))
           = [(memory_base_address (Bank n), \<lparr>block_type = ty, block_length = len\<rparr>)]"
    by (simp_all add: add_block_def Bank_def)
  show ?thesis
    using distinct_add_blocks[OF assms, of hints] map_of_add_blocks[of b hints a] m
      same_hints_same_regions[OF m d] two new base
    by (simp only: simp_thms)
qed

text \<open>
  The calls that \<^verbatim>\<open>init_symbols\<close> issues for the header title of a Game Boy Color
  image: \<^verbatim>\<open>00:0134 .text:10\<close>, \<^verbatim>\<open>00:0144 .data:c\<close> and then \<^verbatim>\<open>00:0134 .text:b\<close>.
\<close>

theorem add_block_overwrites_witness:
  "sorted_blocks (add_blocks (Bank 0) [(0x134, Text, 0x10), (0x144, Data, 0xc), (0x134, Text, 0xb)])
     = sorted_blocks (add_blocks (Bank 0) [(0x144, Data, 0xc), (0x134, Text, 0xb)]) \<and>
   resolve_blocks (add_blocks (Bank 0) [(0x134, Text, 0x10), (0x144, Data, 0xc), (0x134, Text, 0xb)])
     = resolve_blocks (add_blocks (Bank 0) [(0x144, Data, 0xc), (0x134, Text, 0xb)]) \<and>
   map_of (blocks (add_blocks (Bank 0) [(0x134, Text, 0x10), (0x144, Data, 0xc), (0x134, Text, 0xb)]))
       0x134 = Some \<lparr>block_type = Text, block_length = 0xb\<rparr> \<and>
   sorted_blocks (add_blocks (Bank 0) [(0x134, Text, 0x10), (0x144, Data, 0xc), (0x134, Text, 0xb)])
     = [(0, \<lparr>block_type = Code, block_length = 0x4000\<rparr>),
        (0x134, \<lparr>block_type = Text, block_length = 0xb\<rparr>),
        (0x144, \<lparr>block_type = Data, block_length = 0xc\<rparr>)]"
proof -
  have d: "distinct (map fst (blocks (Bank 0)))"
    by (simp add: Bank_def add_block_def)
  have s: "sorted_blocks (add_blocks (Bank 0) [(0x144, Data, 0xc), (0x134, Text, 0xb)])
     = [(0, \<lparr>block_type = Code, block_length = 0x4000\<rparr>),
        (0x134, \<lparr>block_type = Text, block_length = 0xb\<rparr>),
        (0x144, \<lparr>block_type = Data, block_length = 0xc\<rparr>)]"
    by (simp add: sorted_blocks_def Bank_def add_block_def)
  have l: "last_hint 0x134 [(0x134, Text, 0x10), (0x144, Data, 0xc), (0x134, Text, 0xb)]
             = Some (Text, 0xb)"
    "memory_base_address (Bank 0) = 0"
    "map_of (blocks (add_blocks (Bank 0) [(0x144, Data, 0xc), (0x134, Text, 0xb)])) 0x134
       = Some \<lparr>block_type = Text, block_length = 0xb\<rparr>"
    by (simp_all add: Bank_def add_block_def)
  show ?thesis
    using add_block_overwrites[OF d,
        where hints = "[(0x134, Text, 0x10), (0x144, Data, 0xc), (0x134, Text, 0xb)]"
          and a = "0x134" and ?hints1.0 = "[]" and address = "0x134" and ?ty1.0 = Text
          and ?len1.0 = "0x10" and ?hints2.0 = "[(0x144, Data, 0xc)]" and ?ty2.0 = Text
          and ?len2.0 = "0xb" and ?hints3.0 = "[]" and n = 0 and ty = Code and len = 0] s l
    by simp
qed

section \<open>The instruction decoder\<close>

lemma on_success_Inr [simp]: "on_success (Inr x) f = f x"
  by (simp add: on_success_def)

lemma on_success_Inl [simp]: "on_success (Inl e) f = Inl e"
  by (simp add: on_success_def)

lemmas hex_eval = hex_byte_def hex_word_def format_hex_def zero_pad_def hex_digits.simps
  hex_digit_def

lemmas decode_eval = example_rom_def Bank_def add_block_def data_at_def nth_append
  fetch_instruction_def lookup_def stop_or_halt_def decode_operand_def check_end_def
  to_signed_def resolve_operand_label_def decode_instruction_def decode_unchecked_def
  decoded_def read_word_def pop_def rom_address_to_mem_address_def
  get_label_for_instruction_operand_def startswith_bracket_def with_label_def

lemmas emit_eval = disassemble_at_pc_def emit_instruction_def get_labels_for_address_def
  explicit_label_line_def format_label_def instruction_label_prefixes_def format_instruction_def
  append_output_def append_labels_to_output_def append_empty_line_if_none_already_def

lemmas data_eval = example_rom_def Bank_def add_block_def data_at_def nth_append
  process_data_in_range_def get_labels_for_non_code_address_def explicit_label_line_def
  append_labels_to_output_def append_output_def append_empty_line_if_none_already_def
  format_data_def format_instruction_def rom_address_to_mem_address_def upto.simps

lemma resolve_operand_label_None: "resolve_operand_label None st = Inr st"
  by (simp add: resolve_operand_label_def)

lemma decode_operand_plain:
  "plain_operand operand \<Longrightarrow>
   decode_operand opcode pc0 operand st
     = Inr (None, False, st\<lparr>operand_values := operand_values st @ [operand]\<rparr>)"
  by (simp add: plain_operand_def decode_operand_def)

lemma decode_operands_plain_prefix:
  "list_all plain_operand pre \<Longrightarrow>
   decode_operands opcode pc0 (pre @ rest) st
     = decode_operands opcode pc0 rest (st\<lparr>operand_values := operand_values st @ pre\<rparr>)"
  by (induction pre arbitrary: st)
     (simp_all add: decode_operand_plain resolve_operand_label_None)

lemma decode_operands_plain:
  "list_all plain_operand ops \<Longrightarrow>
   decode_operands opcode pc0 ops st = Inr (st\<lparr>operand_values := operand_values st @ ops\<rparr>)"
  using decode_operands_plain_prefix[of ops opcode pc0 "[]" st] by simp

lemma plain_operand_hex_byte: "plain_operand (hex_byte v)"
  by (simp add: plain_operand_def hex_byte_def)

lemma decode_unchecked_plain_fetch:
  assumes "data_at r (pc b) = Inr opcode" and "opcode \<noteq> 0xCB"
    and "instruction_names r opcode = Some name"
    and "instruction_operands r opcode = Some ops"
    and "name \<noteq> ''stop''" and "name \<noteq> ''halt''"
  shows "decode_unchecked b r
           = on_success (decode_operands opcode (pc b) ops
                \<lparr>length' = 1, instruction_name = name, operand_values = [], self = b, rom = r\<rparr>)
               (\<lambda>st. Inr (opcode, st))"
  using assms
  by (simp add: decode_unchecked_def fetch_instruction_def stop_or_halt_def lookup_def dom_def)

lemma decode_instruction_plain_fetch:
  assumes "data_at r (pc b) = Inr opcode" and "opcode \<noteq> 0xCB"
    and "instruction_names r opcode = Some name"
    and "instruction_operands r opcode = Some ops"
    and "name \<noteq> ''stop''" and "name \<noteq> ''halt''"
  shows "decode_instruction b r e
           = on_success (decode_operands opcode (pc b) ops
                \<lparr>length' = 1, instruction_name = name, operand_values = [], self = b, rom = r\<rparr>)
               (\<lambda>st. Inr (check_end (pc b) opcode e st))"
  using decode_unchecked_plain_fetch[OF assms]
  by (simp add: decode_instruction_def on_success_def split: sum.splits)

text \<open>
  Claim C6, as amended. For every decode of a \<^verbatim>\<open>stop\<close> or \<^verbatim>\<open>halt\<close> opcode (whose
  operands in the table, if any, are plain strings): when the byte after the opcode is
  \<open>0x00\<close> and that byte lies inside the region (\<open>pc + 1 < end_address\<close>), the decoded
  instruction keeps its name and consumes 2 bytes; in every other case (the following byte
  is not \<open>0x00\<close>, or the region ends right after the opcode) the opcode alone becomes a
  literal data byte \<^verbatim>\<open>DB\<close> of length 1.
\<close>

theorem stop_halt_length:
  assumes "data_at r (pc b) = Inr opcode" and "opcode \<noteq> 0xCB"
    and "instruction_names r opcode = Some name"
    and "name = ''stop'' \<or> name = ''halt''"
    and "instruction_operands r opcode = Some ops"
    and "list_all plain_operand ops"
    and "data_at r (pc b + 1) = Inr following"
  shows "decode_instruction b r e =
           (if following = 0x00 \<and> pc b + 1 < e
            then Inr \<lparr>length' = 2, instruction_name = name, operand_values = ops,
                      self = b, rom = r\<rparr>
            else Inr \<lparr>length' = 1, instruction_name = ''DB'', operand_values = [hex_byte opcode],
                      self = b, rom = r\<rparr>)"
proof -
  have dom: "opcode \<in> dom (instruction_names r)"
    using assms(3) by auto
  show ?thesis
  proof (cases "following = 0x00")
    case True
    then have "decode_unchecked b r
                 = Inr (opcode, \<lparr>length' = 2, instruction_name = name, operand_values = ops,
                                 self = b, rom = r\<rparr>)"
      using assms dom
      by (auto simp: decode_unchecked_def fetch_instruction_def stop_or_halt_def lookup_def
            decode_operands_plain)
    then show ?thesis
      using True by (simp add: decode_instruction_def check_end_def)
  next
    case False
    then have "decode_unchecked b r
                 = Inr (opcode, \<lparr>length' = 1, instruction_name = ''DB'',
                                 operand_values = [hex_byte opcode], self = b, rom = r\<rparr>)"
      using assms dom decode_operands_plain[of "[hex_byte opcode]" opcode "pc b"]
      by (auto simp: decode_unchecked_def fetch_instruction_def stop_or_halt_def lookup_def
            plain_operand_hex_byte)
    then show ?thesis
      using False by (simp add: decode_instruction_def check_end_def)
  qed
qed

theorem stop_halt_length_witness:
  "decoded (decode_instruction ((Bank 0)\<lparr>pc := 0x150\<rparr>)
              (example_rom (replicate 0x150 0 @ [0x76, 0x00, 0x76, 0x01])) 0x4000)
     = Inr (''halt'', [], 2) \<and>
   decoded (decode_instruction ((Bank 0)\<lparr>pc := 0x152\<rparr>)
              (example_rom (replicate 0x150 0 @ [0x76, 0x00, 0x76, 0x01])) 0x4000)
     = Inr (''DB'', [''$76''], 1)"
proof -
  let ?r = "example_rom (replicate 0x150 0 @ [0x76, 0x00, 0x76, 0x01])"
  have a: "decode_instruction ((Bank 0)\<lparr>pc := 0x150\<rparr>) ?r 0x4000 =
             Inr \<lparr>length' = 2, instruction_name = ''halt'', operand_values = [],
                  self = (Bank 0)\<lparr>pc := 0x150\<rparr>, rom = ?r\<rparr>"
    using stop_halt_length[of ?r "(Bank 0)\<lparr>pc := 0x150\<rparr>" "0x76" "''halt''" "[]" "0x00" "0x4000"]
    by (simp add: example_rom_def data_at_def nth_append)
  have b: "decode_instruction ((Bank 0)\<lparr>pc := 0x152\<rparr>) ?r 0x4000 =
             Inr \<lparr>length' = 1, instruction_name = ''DB'', operand_values = [hex_byte 0x76],
                  self = (Bank 0)\<lparr>pc := 0x152\<rparr>, rom = ?r\<rparr>"
    using stop_halt_length[of ?r "(Bank 0)\<lparr>pc := 0x152\<rparr>" "0x76" "''halt''" "[]" "0x01" "0x4000"]
    by (simp add: example_rom_def data_at_def nth_append)
  show ?thesis
    by (simp add: a b decoded_def hex_eval)
qed

text \<open>
  Claim C6 as stated fails at the end of a region: in a code region that is the single
  byte at address 0, a \<^verbatim>\<open>halt\<close> followed by \<open>0x00\<close> (the first byte of the next region)
  is decoded as one data byte, not as an instruction of 2 bytes.
\<close>

theorem halt_at_region_end:
  "data_at (example_rom [0x76, 0x00, 0x00]) 0 = Inr 0x76 \<and>
   data_at (example_rom [0x76, 0x00, 0x00]) 1 = Inr 0x00 \<and>
   decoded (decode_instruction ((Bank 0)\<lparr>pc := 0\<rparr>) (example_rom [0x76, 0x00, 0x00]) 1)
     = Inr (''DB'', [''$76''], 1) \<and>
   map_sum id (\<lambda>(b, r). (pc b, output b))
     (disassemble_at_pc ((Bank 0)\<lparr>pc := 0\<rparr>) (example_rom [0x76, 0x00, 0x00]) 1)
     = Inr (1, [''    DB $76''])"
  by (simp add: decode_eval emit_eval hex_eval)

lemma decode_operand_self:
  assumes "decode_operand opcode pc0 operand st = Inr (val, brk, st1)"
  shows "self st1 = self st \<and> length' st \<le> length' st1"
proof -
  consider "operand = ''a16''" | "operand = ''[a16]''" | "operand = ''[$ff00+a8]''"
    | "operand = ''d8''" | "operand = ''d16''" | "operand = ''r8''" | "operand = ''pc+r8''"
    | "operand = ''sp+r8''" | "plain_operand operand"
    by (auto simp: plain_operand_def)
  then show ?thesis
  proof cases
    case 9
    then show ?thesis
      using assms by (auto simp: decode_operand_plain)
  qed (use assms in \<open>auto simp: decode_operand_def Let_def pop_def on_success_def
         split: sum.splits if_splits\<close>)
qed

lemma add_label_fields:
  "add_label b name address = Inr b' \<Longrightarrow> b' = b\<lparr>target_addresses := target_addresses b'\<rparr>"
  by (auto simp: add_label_def on_success_def split: sum.splits if_splits)

lemma resolve_operand_label_self:
  assumes "resolve_operand_label val st = Inr st2"
  shows "length' st2 = length' st \<and>
         self st2 = (self st)\<lparr>target_addresses := target_addresses (self st2)\<rparr> \<and>
         (\<not> first_pass (self st) \<longrightarrow> self st2 = self st)"
  using assms
  by (auto simp: resolve_operand_label_def Let_def pop_def on_success_def
        dest: add_label_fields split: sum.splits if_splits option.splits)

lemma decode_operands_self:
  "decode_operands opcode pc0 ops st = Inr st' \<Longrightarrow>
   length' st \<le> length' st' \<and>
   self st' = (self st)\<lparr>target_addresses := target_addresses (self st')\<rparr> \<and>
   (\<not> first_pass (self st) \<longrightarrow> self st' = self st)"
proof (induction ops arbitrary: st)
  case Nil
  then show ?case by simp
next
  case (Cons operand ops)
  from Cons.prems obtain val brk st1 where
    d: "decode_operand opcode pc0 operand st = Inr (val, brk, st1)"
    by (cases "decode_operand opcode pc0 operand st") auto
  note s1 = decode_operand_self[OF d]
  show ?case
  proof (cases brk)
    case True
    then have "st' = st1"
      using Cons.prems d by simp
    then show ?thesis
      using s1 by simp
  next
    case False
    then obtain st2 where r: "resolve_operand_label val st1 = Inr st2"
      and rest: "decode_operands opcode pc0 ops st2 = Inr st'"
      using Cons.prems d by (cases "resolve_operand_label val st1") auto
    note s2 = resolve_operand_label_self[OF r]
    note s3 = Cons.IH[OF rest]
    have fp: "first_pass (self st2) = first_pass (self st)"
      using s1 s2 by (metis bank.select_convs(8) bank.surjective bank.update_convs(7))
    have "self st' = (self st)\<lparr>target_addresses := target_addresses (self st')\<rparr>"
      using s1 s2 s3 by (metis bank.update_convs(7) bank.surjective bank.select_convs)
    then show ?thesis
      using s1 s2 s3 fp by auto
  qed
qed


lemma fetch_instruction_length:
  "fetch_instruction r pc0 opcode = Inr (len, name, ops) \<Longrightarrow> 1 \<le> len"
  by (auto simp: fetch_instruction_def on_success_def split: if_splits sum.splits)

lemma stop_or_halt_length:
  "stop_or_halt r pc0 opcode (len, name, ops) = Inr (len', name', ops') \<Longrightarrow> len \<le> len'"
  by (auto simp: stop_or_halt_def on_success_def split: if_splits sum.splits)

lemma decode_unchecked_self:
  assumes "decode_unchecked b r = Inr (opcode, st)"
  shows "1 \<le> length' st \<and>
         self st = b\<lparr>target_addresses := target_addresses (self st)\<rparr> \<and>
         (\<not> first_pass b \<longrightarrow> self st = b)"
proof -
  from assms obtain ins where f: "fetch_instruction r (pc b) opcode = Inr ins"
    and rest: "on_success (stop_or_halt r (pc b) opcode ins) (\<lambda>(len, name, operands).
             on_success (decode_operands opcode (pc b) operands
                           \<lparr>length' = len, instruction_name = name, operand_values = [],
                            self = b, rom = r\<rparr>) (\<lambda>st.
               Inr (opcode, st))) = Inr (opcode, st)"
    by (auto simp: decode_unchecked_def Let_def on_success_def split: sum.splits if_splits)
  obtain len name ops where ins: "ins = (len, name, ops)"
    by (cases ins) auto
  from rest obtain len' name' ops' where
    s: "stop_or_halt r (pc b) opcode (len, name, ops) = Inr (len', name', ops')"
    and d: "decode_operands opcode (pc b) ops'
              \<lparr>length' = len', instruction_name = name', operand_values = [], self = b, rom = r\<rparr>
            = Inr st"
    unfolding ins by (auto simp: on_success_def split: sum.splits)
  have "1 \<le> len'"
    using fetch_instruction_length[OF f[unfolded ins]] stop_or_halt_length[OF s] by simp
  then show ?thesis
    using decode_operands_self[OF d] by simp
qed

lemma generated_labels_pc:
  "generated_labels (b\<lparr>pc := p\<rparr>) address names labels = generated_labels b address names labels"
  by (induction names arbitrary: labels) (simp_all add: format_label_def cong: if_cong)

lemma get_labels_for_address_pc:
  "get_labels_for_address (b\<lparr>pc := p\<rparr>) address = get_labels_for_address b address"
  by (simp add: get_labels_for_address_def generated_labels_pc del: generated_labels.simps
        split: option.splits)

lemma append_labels_output:
  "labels \<noteq> [] \<Longrightarrow>
   append_labels_to_output labels b
     = b\<lparr>output := output b @
            (if output b \<noteq> [] \<and> last (output b) \<noteq> [] then [[]] else []) @
            [join [CHR 0x0A] labels]\<rparr>"
  by (auto simp: append_labels_to_output_def append_empty_line_if_none_already_def
        append_output_def last_conv_nth)

lemma emit_instruction_output:
  "emit_instruction a name ops (b\<lparr>pc := p\<rparr>) =
     on_success (get_labels_for_address b a) (\<lambda>labels.
       Inr (b\<lparr>pc := p,
              output := output b @
                (if labels = [] then []
                 else (if output b \<noteq> [] \<and> last (output b) \<noteq> [] then [[]] else []) @
                      [join [CHR 0x0A] labels]) @
                [''    '' @ name @ '' '' @ join '', '' ops] @
                (if name \<in> set [''ret'', ''reti'', ''jr'', ''jp'']
                 then if name = ''jr'' \<or> (name = ''jp'' \<and> length ops > 1) \<or>
                         (name = ''ret'' \<and> length ops > 0)
                      then [[]] else [[], []]
                 else [])\<rparr>))"
proof (cases "get_labels_for_address b a")
  case (Inl e)
  then show ?thesis
    by (simp add: emit_instruction_def get_labels_for_address_pc)
next
  case (Inr labels)
  show ?thesis
  proof (cases "labels = []")
    case True
    then show ?thesis
      using Inr
      by (simp add: emit_instruction_def get_labels_for_address_pc Let_def append_output_def
            format_instruction_def)
  next
    case False
    then show ?thesis
      using Inr
      by (simp add: emit_instruction_def get_labels_for_address_pc Let_def append_output_def
            format_instruction_def append_labels_output)
  qed
qed

text \<open>
  Claim C7. For every decode at \<open>pc\<close> in a region that ends at \<open>end_address\<close>, with
  \<open>st\<close> the instruction as the operand loop leaves it: when \<open>pc\<close> plus its length runs
  past \<open>end_address\<close>, the decoded form is given up and the opcode byte alone is a \<^verbatim>\<open>DB\<close>
  of length 1; otherwise, and so when the instruction ends exactly at \<open>end_address\<close>, it
  is kept as decoded. \<^verbatim>\<open>disassemble_at_pc\<close> then advances \<open>pc\<close> by 1 or by that length:
  in the first pass it records the address and writes nothing; in the second pass it
  appends to the output the labels of the address, if any, and then the line
  \<^verbatim>\<open>DB $xx\<close> of the opcode and nothing else, or the line of the decoded instruction with
  the empty lines that follow a return or a jump. In a region that is not empty, \<open>pc\<close>
  moves forward and never past \<open>end_address\<close> (in the second pass, when the labels of
  the address are found without an error).
\<close>

theorem instruction_within_region:
  assumes "decode_unchecked b r = Inr (opcode, st)"
  shows "decode_instruction b r e =
           Inr (if pc b + length' st > e
                then st\<lparr>length' := 1, instruction_name := ''DB'',
                        operand_values := [hex_byte opcode]\<rparr>
                else st) \<and>
         (first_pass b \<longrightarrow>
            disassemble_at_pc b r e =
              Inr ((self st)\<lparr>pc := pc b + (if pc b + length' st > e then 1 else length' st),
                     disassembled_addresses :=
                       insert (rom_address_to_mem_address (pc b)) (disassembled_addresses b)\<rparr>,
                   rom st)) \<and>
         (\<not> first_pass b \<and> pc b + length' st > e \<longrightarrow>
            disassemble_at_pc b r e =
              on_success (get_labels_for_address b (rom_address_to_mem_address (pc b))) (\<lambda>labels.
                Inr (b\<lparr>pc := pc b + 1,
                       output := output b @
                         (if labels = [] then []
                          else (if output b \<noteq> [] \<and> last (output b) \<noteq> [] then [[]] else []) @
                               [join [CHR 0x0A] labels]) @
                         [''    DB '' @ hex_byte opcode]\<rparr>,
                     rom st))) \<and>
         (\<not> first_pass b \<and> pc b + length' st \<le> e \<longrightarrow>
            disassemble_at_pc b r e =
              on_success (get_labels_for_address b (rom_address_to_mem_address (pc b))) (\<lambda>labels.
                Inr (b\<lparr>pc := pc b + length' st,
                       output := output b @
                         (if labels = [] then []
                          else (if output b \<noteq> [] \<and> last (output b) \<noteq> [] then [[]] else []) @
                               [join [CHR 0x0A] labels]) @
                         [''    '' @ instruction_name st @ '' '' @ join '', '' (operand_values st)] @
                         (if instruction_name st \<in> set [''ret'', ''reti'', ''jr'', ''jp'']
                          then if instruction_name st = ''jr'' \<or>
                                  (instruction_name st = ''jp'' \<and> length (operand_values st) > 1) \<or>
                                  (instruction_name st = ''ret'' \<and> length (operand_values st) > 0)
                               then [[]] else [[], []]
                          else [])\<rparr>,
                     rom st))) \<and>
         (pc b < e \<longrightarrow>
            map_sum id (\<lambda>st'. pc b + length' st' \<le> e) (decode_instruction b r e) = Inr True) \<and>
         (pc b < e \<and>
          (first_pass b \<or>
           get_labels_for_address b (rom_address_to_mem_address (pc b)) = Inr labels) \<longrightarrow>
            map_sum id (\<lambda>(b', r'). pc b < pc b' \<and> pc b' \<le> e) (disassemble_at_pc b r e) = Inr True)"
proof -
  note s = decode_unchecked_self[OF assms]
  have pcs: "pc (self st) = pc b" "first_pass (self st) = first_pass b"
    "disassembled_addresses (self st) = disassembled_addresses b"
    using s by (metis bank.select_convs bank.surjective bank.update_convs(7))+
  have dec: "decode_instruction b r e =
           Inr (if pc b + length' st > e
                then st\<lparr>length' := 1, instruction_name := ''DB'',
                        operand_values := [hex_byte opcode]\<rparr>
                else st)"
    using assms by (simp add: decode_instruction_def check_end_def)
  have first: "disassemble_at_pc b r e =
              Inr ((self st)\<lparr>pc := pc b + (if pc b + length' st > e then 1 else length' st),
                     disassembled_addresses :=
                       insert (rom_address_to_mem_address (pc b)) (disassembled_addresses b)\<rparr>,
                   rom st)" if "first_pass b"
    using that pcs by (simp add: disassemble_at_pc_def dec Let_def)
  have long: "disassemble_at_pc b r e =
              on_success (get_labels_for_address b (rom_address_to_mem_address (pc b))) (\<lambda>labels.
                Inr (b\<lparr>pc := pc b + 1,
                       output := output b @
                         (if labels = [] then []
                          else (if output b \<noteq> [] \<and> last (output b) \<noteq> [] then [[]] else []) @
                               [join [CHR 0x0A] labels]) @
                         [''    DB '' @ hex_byte opcode]\<rparr>,
                     rom st))" if "\<not> first_pass b" "pc b + length' st > e"
  proof -
    have "self st = b"
      using s that(1) by simp
    then show ?thesis
      using that
      by (simp add: disassemble_at_pc_def dec Let_def emit_instruction_output on_success_def
            split: sum.splits)
  qed
  have kept: "disassemble_at_pc b r e =
              on_success (get_labels_for_address b (rom_address_to_mem_address (pc b))) (\<lambda>labels.
                Inr (b\<lparr>pc := pc b + length' st,
                       output := output b @
                         (if labels = [] then []
                          else (if output b \<noteq> [] \<and> last (output b) \<noteq> [] then [[]] else []) @
                               [join [CHR 0x0A] labels]) @
                         [''    '' @ instruction_name st @ '' '' @ join '', '' (operand_values st)] @
                         (if instruction_name st \<in> set [''ret'', ''reti'', ''jr'', ''jp'']
                          then if instruction_name st = ''jr'' \<or>
                                  (instruction_name st = ''jp'' \<and> length (operand_values st) > 1) \<or>
                                  (instruction_name st = ''ret'' \<and> length (operand_values st) > 0)
                               then [[]] else [[], []]
                          else [])\<rparr>,
                     rom st))" if "\<not> first_pass b" "pc b + length' st \<le> e"
  proof -
    have "self st = b"
      using s that(1) by simp
    then show ?thesis
      using that
      by (simp add: disassemble_at_pc_def dec Let_def emit_instruction_output on_success_def
            split: sum.splits)
  qed
  have within: "map_sum id (\<lambda>st'. pc b + length' st' \<le> e) (decode_instruction b r e) = Inr True"
    if "pc b < e"
    using that by (simp add: dec)
  have adv: "map_sum id (\<lambda>(b', r'). pc b < pc b' \<and> pc b' \<le> e) (disassemble_at_pc b r e) = Inr True"
    if "pc b < e"
      "first_pass b \<or> get_labels_for_address b (rom_address_to_mem_address (pc b)) = Inr labels"
  proof (cases "first_pass b")
    case True
    then show ?thesis
      using that(1) s by (simp add: first)
  next
    case False
    then have g: "get_labels_for_address b (rom_address_to_mem_address (pc b)) = Inr labels"
      using that(2) by simp
    show ?thesis
    proof (cases "pc b + length' st > e")
      case True
      show ?thesis
        using that(1) by (simp add: long[OF False True] g)
    next
      case short: False
      then have "pc b + length' st \<le> e"
        by simp
      then show ?thesis
        using s by (simp add: kept[OF False] g)
    qed
  qed
  show ?thesis
    by (intro conjI impI; (elim conjE)?; (rule dec first long kept within adv; assumption))
qed


theorem instruction_within_region_witness:
  "map_sum id (\<lambda>(b, r). (pc b, output b))
     (disassemble_at_pc ((Bank 0)\<lparr>pc := 0x150\<rparr>)
        (example_rom (replicate 0x150 0 @ [0xCD, 0x00, 0x02, 0x00, 0x00])) 0x153)
     = Inr (0x153, [''    call $0200'']) \<and>
   map_sum id (\<lambda>(b, r). (pc b, output b))
     (disassemble_at_pc ((Bank 0)\<lparr>pc := 0x150\<rparr>)
        (example_rom (replicate 0x150 0 @ [0xCD, 0x00, 0x02, 0x00, 0x00])) 0x152)
     = Inr (0x151, [''    DB $cd'']) \<and>
   map_sum id (\<lambda>(b, r). (pc b, disassembled_addresses b, output b))
     (disassemble_at_pc ((Bank 0)\<lparr>first_pass := True, pc := 0x150\<rparr>)
        (example_rom (replicate 0x150 0 @ [0xCD, 0x00, 0x02, 0x00, 0x00])) 0x152)
     = Inr (0x151, {0x150}, [])"
proof -
  let ?r = "example_rom (replicate 0x150 0 @ [0xCD, 0x00, 0x02, 0x00, 0x00])"
  let ?b = "(Bank 0)\<lparr>pc := 0x150\<rparr>"
  let ?st = "\<lparr>length' = 3, instruction_name = ''call'', operand_values = [''$0200''],
              self = ?b, rom = ?r\<rparr>"
  let ?b1 = "(Bank 0)\<lparr>first_pass := True, pc := 0x150\<rparr>"
  let ?st1 = "\<lparr>length' = 3, instruction_name = ''call'', operand_values = [''$0200''],
               self = ?b1\<lparr>target_addresses := [''jp'' \<mapsto> {}, ''jr'' \<mapsto> {}, ''call'' \<mapsto> {0x200}]\<rparr>,
               rom = ?r\<rparr>"
  have h: "decode_unchecked ?b ?r = Inr (0xCD, ?st)"
    by (simp add: decode_eval hex_eval)
  have h1: "decode_unchecked ?b1 ?r = Inr (0xCD, ?st1)"
    by (simp add: decode_eval hex_eval add_label_def)
  have m: "first_pass (Bank 0) = False" "output (Bank 0) = []" "disassembled_addresses (Bank 0) = {}"
    "rom_address_to_mem_address 0x150 = 0x150"
    "get_labels_for_address ?b 0x150 = Inr []"
    by (simp_all add: Bank_def add_block_def get_labels_for_address_def lookup_def
          rom_address_to_mem_address_def)
  have a: "disassemble_at_pc ?b ?r 0x153 = Inr (?b\<lparr>pc := 0x153, output := [''    call $0200'']\<rparr>, ?r)"
    using instruction_within_region[OF h, of "0x153"] by (simp add: m)
  have b: "disassemble_at_pc ?b ?r 0x152 = Inr (?b\<lparr>pc := 0x151, output := [''    DB $cd'']\<rparr>, ?r)"
    using instruction_within_region[OF h, of "0x152"] by (simp add: m hex_eval)
  have c: "disassemble_at_pc ?b1 ?r 0x152
             = Inr (?b1\<lparr>target_addresses := [''jp'' \<mapsto> {}, ''jr'' \<mapsto> {}, ''call'' \<mapsto> {0x200}],
                         pc := 0x151, disassembled_addresses := {0x150}\<rparr>, ?r)"
    using instruction_within_region[OF h1, of "0x152"] by (simp add: m)
  show ?thesis
    by (simp add: a b c m)
qed

lemma startswith_bracket_hex_word: "\<not> startswith_bracket (hex_word v)"
  by (simp add: startswith_bracket_def hex_word_def)

text \<open>
  Claim C2, as amended. For every relative branch (an instruction whose operands are
  plain strings and one \<^verbatim>\<open>pc+r8\<close>) that lies inside its region and whose target is in
  another bank than the one being disassembled: the operand never becomes a label and no
  target is recorded; when the target bank is lower than the bank's number the instruction
  is the two data bytes \<^verbatim>\<open>DB opcode, offset\<close>, and when it is higher the instruction
  keeps its name with the literal offset \<^verbatim>\<open>@+$xx\<close> or \<^verbatim>\<open>@-$xx\<close>.
\<close>

theorem cross_bank_relative_branch:
  assumes "data_at r (pc b) = Inr opcode" and "opcode \<noteq> 0xCB"
    and "instruction_names r opcode = Some name"
    and "instruction_operands r opcode = Some (pre @ [''pc+r8''] @ post)"
    and "name \<noteq> ''stop''" and "name \<noteq> ''halt''"
    and "list_all plain_operand pre" and "list_all plain_operand post"
    and "data_at r (pc b + 1) = Inr byte"
    and "(pc b + 2 + to_signed byte) div 0x4000 \<noteq> bank_number b"
    and "pc b + 1 < e"
  shows "decode_instruction b r e =
           Inr (if (pc b + 2 + to_signed byte) div 0x4000 < bank_number b
                then \<lparr>length' = 2, instruction_name = ''DB'',
                      operand_values = [hex_byte opcode, hex_byte byte], self = b, rom = r\<rparr>
                else \<lparr>length' = 2, instruction_name = name,
                      operand_values = pre @
                        [if 2 + to_signed byte \<ge> 0 then ''@+'' @ hex_byte (2 + to_signed byte)
                         else ''@-'' @ hex_byte (- (2 + to_signed byte))] @ post,
                      self = b, rom = r\<rparr>)"
proof -
  let ?st = "\<lparr>length' = 1, instruction_name = name, operand_values = [], self = b, rom = r\<rparr>"
  have fetch: "decode_instruction b r e
                 = on_success (decode_operands opcode (pc b) ([''pc+r8''] @ post)
                     (?st\<lparr>operand_values := operand_values ?st @ pre\<rparr>))
                     (\<lambda>st. Inr (check_end (pc b) opcode e st))"
    using decode_instruction_plain_fetch[OF assms(1-6), of e]
      decode_operands_plain_prefix[OF assms(7), of opcode "pc b" "[''pc+r8''] @ post" ?st]
    by simp
  show ?thesis
  proof (cases "(pc b + 2 + to_signed byte) div 0x4000 < bank_number b")
    case True
    then show ?thesis
      using assms(9-11)
      by (simp add: fetch decode_operand_def Let_def check_end_def)
  next
    case False
    then show ?thesis
      using assms(8-11)
      by (simp add: fetch decode_operand_def Let_def check_end_def resolve_operand_label_None
            decode_operands_plain)
  qed
qed

theorem cross_bank_relative_branch_witness:
  "decoded (decode_instruction ((Bank 1)\<lparr>pc := 0x4000\<rparr>)
              (example_rom (replicate 0x4000 0 @ [0x18, 0xF0, 0x00, 0x00])) 0x8000)
     = Inr (''DB'', [''$18'', ''$f0''], 2)"
proof -
  let ?r = "example_rom (replicate 0x4000 0 @ [0x18, 0xF0, 0x00, 0x00])"
  let ?b = "(Bank 1)\<lparr>pc := 0x4000\<rparr>"
  have m: "pc ?b = 0x4000" "bank_number ?b = 1"
    by (simp_all add: Bank_def add_block_def)
  have "decode_instruction ?b ?r 0x8000
          = Inr \<lparr>length' = 2, instruction_name = ''DB'',
                 operand_values = [hex_byte 0x18, hex_byte 0xF0], self = ?b, rom = ?r\<rparr>"
    using cross_bank_relative_branch[of ?r ?b "0x18" "''jr''" "[]" "[]" "0xF0" "0x8000"]
    unfolding m by (simp add: example_rom_def data_at_def nth_append to_signed_def)
  then show ?thesis
    by (simp add: decoded_def hex_eval)
qed

text \<open>
  Claim C2 as stated fails for a target in a higher bank: in bank 0 the branch
  \<^verbatim>\<open>jr\<close> at \<open>0x3ffe\<close> with offset \<open>0x10\<close> has its target \<open>0x4010\<close> in bank 1, and it is
  decoded as \<^verbatim>\<open>jr @+$12\<close>, not as two data bytes.
\<close>

theorem relative_branch_into_higher_bank:
  "(0x3ffe + 2 + to_signed 0x10) div 0x4000 = 1 \<and>
   bank_number ((Bank 0)\<lparr>pc := 0x3ffe\<rparr>) = 0 \<and>
   decoded (decode_instruction ((Bank 0)\<lparr>pc := 0x3ffe\<rparr>)
              (example_rom (replicate 0x3ffe 0 @ [0x18, 0x10, 0x00, 0x00])) 0x4000)
     = Inr (''jr'', [''@+$12''], 2) \<and>
   map_sum id (\<lambda>(b, r). output b)
     (disassemble_at_pc ((Bank 0)\<lparr>pc := 0x3ffe\<rparr>)
        (example_rom (replicate 0x3ffe 0 @ [0x18, 0x10, 0x00, 0x00])) 0x4000)
     = Inr [''    jr @+$12'', '''']"
  by (simp add: decode_eval emit_eval hex_eval)

text \<open>
  Claim C5, as amended. For every decode of an instruction with an operand \<^verbatim>\<open>[a16]\<close>
  (the other operands plain strings, the name none of \<^verbatim>\<open>jr\<close>, \<^verbatim>\<open>jp\<close>, \<^verbatim>\<open>call\<close>)
  whose three bytes lie inside the region: when the value is at least \<open>0xff00\<close> and the
  opcode is \<open>0xEA\<close> or \<open>0xFA\<close>, the instruction is \<^verbatim>\<open>ld_long\<close> with the bare address
  (or the explicit label of that address, when there is one) and \<^verbatim>\<open>rom.has_ld_long\<close> is
  set; for every other opcode or a lower value the name is kept, the operand is the
  reference in brackets (of the address, or of its explicit label when the value is at
  least \<open>0xc000\<close> and has one) and the flag is not touched.
\<close>

theorem ld_long_workaround:
  assumes "data_at r (pc b) = Inr opcode" and "opcode \<noteq> 0xCB"
    and "instruction_names r opcode = Some name"
    and "instruction_operands r opcode = Some (pre @ [''[a16]''] @ post)"
    and "name \<noteq> ''stop''" and "name \<noteq> ''halt''"
    and "name \<notin> set [''jr'', ''jp'', ''call'']"
    and "list_all plain_operand pre" and "list_all plain_operand post"
    and "read_word r (pc b) = Inr v"
    and "pc b + 2 < e"
  shows "decode_instruction b r e =
           Inr (if v \<ge> 0xff00 \<and> (opcode = 0xea \<or> opcode = 0xfa)
                then \<lparr>length' = 3, instruction_name = ''ld_long'',
                      operand_values = pre @
                        [case labelled_addresses b v of None \<Rightarrow> hex_word v | Some l \<Rightarrow> l] @ post,
                      self = b, rom = r\<lparr>has_ld_long := True\<rparr>\<rparr>
                else \<lparr>length' = 3, instruction_name = name,
                      operand_values = pre @
                        [case (if v \<ge> 0xc000 then labelled_addresses b v else None) of
                           None \<Rightarrow> ''['' @ hex_word v @ '']''
                         | Some l \<Rightarrow> ''['' @ l @ '']''] @ post,
                      self = b, rom = r\<rparr>)"
proof -
  let ?st = "\<lparr>length' = 1, instruction_name = name, operand_values = [], self = b, rom = r\<rparr>"
  have fetch: "decode_instruction b r e
                 = on_success (decode_operands opcode (pc b) ([''[a16]''] @ post)
                     (?st\<lparr>operand_values := operand_values ?st @ pre\<rparr>))
                     (\<lambda>st. Inr (check_end (pc b) opcode e st))"
    using decode_instruction_plain_fetch[OF assms(1-6), of e]
      decode_operands_plain_prefix[OF assms(8), of opcode "pc b" "[''[a16]''] @ post" ?st]
    by simp
  show ?thesis
  proof (cases "v \<ge> 0xff00 \<and> (opcode = 0xea \<or> opcode = 0xfa)")
    case True
    then show ?thesis
      using assms(9-11)
      by (auto simp: fetch decode_operand_def Let_def check_end_def pop_def
            resolve_operand_label_def decode_operands_plain startswith_bracket_hex_word
            split: option.splits)
  next
    case False
    then show ?thesis
      using assms(7,9-11)
      by (auto simp: fetch decode_operand_def Let_def check_end_def pop_def
            resolve_operand_label_def decode_operands_plain startswith_bracket_def
            split: option.splits)
  qed
qed

theorem ld_long_workaround_witness:
  "decoded (decode_instruction ((Bank 0)\<lparr>pc := 0x150\<rparr>)
              (example_rom (replicate 0x150 0 @ [0xEA, 0x40, 0xFF, 0x00, 0x00])) 0x4000)
     = Inr (''ld_long'', [''$ff40'', ''a''], 3) \<and>
   map_sum id (\<lambda>st. has_ld_long (rom st))
     (decode_instruction ((Bank 0)\<lparr>pc := 0x150\<rparr>)
        (example_rom (replicate 0x150 0 @ [0xEA, 0x40, 0xFF, 0x00, 0x00])) 0x4000)
     = Inr True"
proof -
  let ?r = "example_rom (replicate 0x150 0 @ [0xEA, 0x40, 0xFF, 0x00, 0x00])"
  let ?b = "(Bank 0)\<lparr>pc := 0x150\<rparr>"
  have m: "pc ?b = 0x150" "labelled_addresses ?b = Map.empty"
    by (simp_all add: Bank_def add_block_def)
  have "decode_instruction ?b ?r 0x4000
          = Inr \<lparr>length' = 3, instruction_name = ''ld_long'',
                 operand_values = [hex_word 0xff40, ''a''], self = ?b,
                 rom = ?r\<lparr>has_ld_long := True\<rparr>\<rparr>"
    using ld_long_workaround[of ?r ?b "0xEA" "''ld''" "[]" "[''a'']" "0xff40" "0x4000"]
    unfolding m
    by (simp add: example_rom_def data_at_def read_word_def nth_append plain_operand_def)
  then show ?thesis
    by (simp add: decoded_def hex_eval)
qed

text \<open>
  Claim C5 as stated fails at the end of a region: with opcode \<open>0xEA\<close> and the value
  \<open>0xff40\<close>, in a region that ends two bytes after the opcode, the instruction is the data
  byte \<^verbatim>\<open>DB $ea\<close>, not \<^verbatim>\<open>ld_long\<close>, and the flag is set all the same.
\<close>

theorem ld_long_at_region_end:
  "decoded (decode_instruction ((Bank 0)\<lparr>pc := 0x150\<rparr>)
              (example_rom (replicate 0x150 0 @ [0xEA, 0x40, 0xFF, 0x00, 0x00])) 0x152)
     = Inr (''DB'', [''$ea''], 1) \<and>
   map_sum id (\<lambda>(b, r). (output b, has_ld_long r))
     (disassemble_at_pc ((Bank 0)\<lparr>pc := 0x150\<rparr>)
        (example_rom (replicate 0x150 0 @ [0xEA, 0x40, 0xFF, 0x00, 0x00])) 0x152)
     = Inr ([''    DB $ea''], True)"
  by (simp add: decode_eval emit_eval hex_eval)

section \<open>Labels and operands\<close>

lemma mem_address_below_8000: "rom_address_to_mem_address v < 0x8000"
  by (simp add: rom_address_to_mem_address_def) 

lemma decode_operand_with_label:
  "decode_operand opcode pc0 operand (with_label_in a l st)
     = on_success (decode_operand opcode pc0 operand st)
         (\<lambda>(val, brk, st'). Inr (val, brk, with_label_in a l st'))"
proof -
  have sel: "rom (with_label_in a l st) = rom st"
    "bank_number (self (with_label_in a l st)) = bank_number (self st)"
    by (simp_all add: with_label_in_def with_label_def)
  consider "operand = ''a16''" | "operand = ''[a16]''" | "operand = ''[$ff00+a8]''"
    | "operand = ''d8''" | "operand = ''d16''" | "operand = ''r8''" | "operand = ''pc+r8''"
    | "operand = ''sp+r8''" | "plain_operand operand"
    by (auto simp: plain_operand_def)
  then show ?thesis
  proof cases
    case 9
    then show ?thesis
      by (simp add: decode_operand_plain with_label_in_def)
  qed (auto simp: decode_operand_def sel Let_def pop_def on_success_def with_label_in_def
         with_label_def split: sum.splits)
qed

lemma get_label_with_label:
  "address \<noteq> a \<Longrightarrow>
   get_label_for_instruction_operand (with_label a l b) name address
     = get_label_for_instruction_operand b name address"
  by (simp add: get_label_for_instruction_operand_def with_label_def format_label_def dom_def
        cong: if_cong)

lemma add_label_with_label:
  "add_label (with_label a l b) name address
     = on_success (add_label b name address) (\<lambda>b'. Inr (with_label a l b'))"
  by (simp add: add_label_def with_label_def on_success_def split: sum.splits)

lemma resolve_operand_label_with_label:
  assumes "0x8000 \<le> a" and "a < 0xc000"
  shows "resolve_operand_label val (with_label_in a l st)
           = on_success (resolve_operand_label val st) (\<lambda>st'. Inr (with_label_in a l st'))"
proof (cases val)
  case None
  then show ?thesis by (simp add: resolve_operand_label_def with_label_in_def)
next
  case (Some v)
  have ne: "rom_address_to_mem_address v \<noteq> a"
    using mem_address_below_8000[of v] assms(1) by linarith
  have g: "get_label_for_instruction_operand (with_label a l (self st)) (instruction_name st)
              (rom_address_to_mem_address v)
           = get_label_for_instruction_operand (self st) (instruction_name st)
              (rom_address_to_mem_address v)"
    by (rule get_label_with_label[OF ne])
  have sel: "self (with_label_in a l st) = with_label a l (self st)"
    "instruction_name (with_label_in a l st) = instruction_name st"
    "operand_values (with_label_in a l st) = operand_values st"
    by (simp_all add: with_label_in_def)
  have fld: "bank_number (with_label a l (self st)) = bank_number (self st)"
    "first_pass (with_label a l (self st)) = first_pass (self st)"
    "\<And>k. k \<noteq> a \<Longrightarrow> labelled_addresses (with_label a l (self st)) k = labelled_addresses (self st) k"
    by (simp_all add: with_label_def)
  show ?thesis
  proof (cases "v \<ge> 0xc000")
    case True
    then have "v \<noteq> a" using assms(2) by simp
    then show ?thesis
      using True Some
      by (simp add: resolve_operand_label_def sel fld add_label_with_label g Let_def)
         (auto simp: on_success_def with_label_in_def split: sum.splits option.splits)
  next
    case False
    then show ?thesis
      using Some
      by (simp add: resolve_operand_label_def sel fld add_label_with_label g Let_def)
         (auto simp: on_success_def with_label_in_def split: sum.splits option.splits)
  qed
qed

lemma decode_operands_with_label:
  assumes "0x8000 \<le> a" and "a < 0xc000"
  shows "decode_operands opcode pc0 ops (with_label_in a l st)
           = on_success (decode_operands opcode pc0 ops st) (\<lambda>st'. Inr (with_label_in a l st'))"
proof (induction ops arbitrary: st)
  case Nil
  then show ?case by simp
next
  case (Cons operand ops)
  show ?case
  proof (cases "decode_operand opcode pc0 operand st")
    case (Inl e)
    then show ?thesis
      by (simp add: decode_operand_with_label)
  next
    case (Inr res)
    obtain val brk st1 where res: "res = (val, brk, st1)"
      by (cases res) auto
    show ?thesis
    proof (cases "resolve_operand_label val st1")
      case (Inl e)
      then show ?thesis
        using Inr res by (simp add: decode_operand_with_label resolve_operand_label_with_label[OF assms])
    next
      case (Inr st2)
      then show ?thesis
        using \<open>decode_operand opcode pc0 operand st = Inr res\<close> res Cons.IH[of st2]
        by (simp add: decode_operand_with_label resolve_operand_label_with_label[OF assms])
    qed
  qed
qed

lemma check_end_with_label:
  "check_end pc0 opcode e (with_label_in a l st) = with_label_in a l (check_end pc0 opcode e st)"
  by (simp add: check_end_def with_label_in_def)

lemma decode_instruction_with_label:
  assumes "0x8000 \<le> a" and "a < 0xc000"
  shows "decode_instruction (with_label a l b) r e
           = on_success (decode_instruction b r e) (\<lambda>st. Inr (with_label_in a l st))"
proof -
  have init: "\<And>len name. \<lparr>length' = len, instruction_name = name, operand_values = [],
                  self = with_label a l b, rom = r\<rparr>
        = with_label_in a l \<lparr>length' = len, instruction_name = name, operand_values = [],
                  self = b, rom = r\<rparr>"
    by (simp add: with_label_in_def)
  have pcb: "pc (with_label a l b) = pc b"
    by (simp add: with_label_def)
  have "decode_unchecked (with_label a l b) r
          = on_success (decode_unchecked b r) (\<lambda>(opcode, st). Inr (opcode, with_label_in a l st))"
    unfolding decode_unchecked_def pcb Let_def init decode_operands_with_label[OF assms]
    by (auto simp: on_success_def split: sum.splits prod.splits)
  then show ?thesis
    by (auto simp: decode_instruction_def pcb check_end_with_label on_success_def
          split: sum.splits prod.splits)
qed

text \<open>
  Claim C9. An explicit label at an address in \<open>[0x8000, 0xc000)\<close> is copied into the
  label table of every bank, and it is never put in the place of an instruction operand:
  the label step of the operand loop leaves an operand with that value as it is, and the
  name, the operand texts and the length of every decoded instruction are the same with
  and without the label.
\<close>

theorem ram_label_below_c000_not_substituted:
  assumes "0x8000 \<le> address" and "address < 0xc000"
  shows "add_symbol_label banks bank_no address label
           = Inr (\<lambda>n. map_option (with_label address label) (banks n)) \<and>
         resolve_operand_label (Some address) st = Inr st \<and>
         decoded (decode_instruction (with_label address label b) r e)
           = decoded (decode_instruction b r e)"
proof -
  have copy: "add_symbol_label banks bank_no address label
                = Inr (\<lambda>n. map_option (with_label address label) (banks n))"
    using assms(1) by (simp add: add_symbol_label_def with_label_def[abs_def])
  have keep: "resolve_operand_label (Some address) st = Inr st"
    using assms by (simp add: resolve_operand_label_def)
  have "decoded (decode_instruction (with_label address label b) r e)
          = decoded (decode_instruction b r e)"
    unfolding decode_instruction_with_label[OF assms]
    by (cases "decode_instruction b r e") (simp_all add: decoded_def with_label_in_def)
  then show ?thesis
    using copy keep by simp
qed

theorem ram_label_below_c000_not_substituted_witness:
  "add_symbol_label [0 \<mapsto> Bank 0, 1 \<mapsto> Bank 1] 0 0xa000 ''sRam''
     = Inr (\<lambda>n. map_option (with_label 0xa000 ''sRam'') ([0 \<mapsto> Bank 0, 1 \<mapsto> Bank 1] n)) \<and>
   decoded (decode_instruction (with_label 0xa000 ''sRam'' ((Bank 0)\<lparr>pc := 0x150\<rparr>))
              (example_rom (replicate 0x150 0 @ [0xFA, 0x00, 0xA0, 0x00, 0x00])) 0x4000)
     = Inr (''ld'', [''a'', ''[$a000]''], 3)"
proof -
  let ?r = "example_rom (replicate 0x150 0 @ [0xFA, 0x00, 0xA0, 0x00, 0x00])"
  let ?b = "(Bank 0)\<lparr>pc := 0x150\<rparr>"
  have h: "(0x8000::int) \<le> 0xa000" "(0xa000::int) < 0xc000"
    by simp_all
  have d: "decoded (decode_instruction ?b ?r 0x4000) = Inr (''ld'', [''a'', ''[$a000]''], 3)"
    by (simp add: decode_eval hex_eval)
  show ?thesis
    using ram_label_below_c000_not_substituted[OF h, of "[0 \<mapsto> Bank 0, 1 \<mapsto> Bank 1]" 0 "''sRam''" _ ?b ?r "0x4000"] d
    by simp
qed

section \<open>Data regions\<close>

lemma get_labels_output_irrelevant:
  "labelled_addresses b' = labelled_addresses b \<Longrightarrow>
   get_labels_for_non_code_address b' a = get_labels_for_non_code_address b a"
  by (simp add: get_labels_for_non_code_address_def)

lemma labelled_append_output [simp]:
  "labelled_addresses (append_output t b) = labelled_addresses b"
  by (simp add: append_output_def)

lemma labelled_append_labels [simp]:
  "labelled_addresses (append_labels_to_output ls b) = labelled_addresses b"
  by (simp add: append_labels_to_output_def append_empty_line_if_none_already_def)

lemma render_append: "render (xs @ ys) b = render ys (render xs b)"
  by (induction xs b rule: render.induct) simp_all

lemma data_loop_render:
  "labelled_addresses b0 = labelled_addresses b \<Longrightarrow>
   data_loop r e addresses vals b0
     = on_success (data_lines b r e addresses vals) (\<lambda>items. Inr (render items b0))"
proof (induction addresses arbitrary: vals b0)
  case Nil
  then show ?case by simp
next
  case (Cons address addresses)
  have lab: "get_labels_for_non_code_address b0 (rom_address_to_mem_address address)
               = get_labels_for_non_code_address b (rom_address_to_mem_address address)"
    using Cons.prems by (rule get_labels_output_irrelevant)
  show ?case
  proof (cases "get_labels_for_non_code_address b (rom_address_to_mem_address address)")
    case (Inl err)
    then show ?thesis by (simp add: lab)
  next
    case (Inr labels)
    show ?thesis
    proof (cases "data_at r address")
      case (Inl err)
      then show ?thesis
        using Inr by (simp add: lab Let_def split: prod.splits)
    next
      case byte: (Inr byte)
      show ?thesis
        using Inr byte Cons.prems
        by (simp add: lab Let_def Cons.IH render_append on_success_def
              split: prod.splits sum.splits)
    qed
  qed
qed

lemma labels_empty_iff:
  "get_labels_for_non_code_address b a = Inr labels \<Longrightarrow>
   (labels = [] \<longleftrightarrow> labelled_addresses b a = None)"
  by (auto simp: get_labels_for_non_code_address_def on_success_def
        split: option.splits sum.splits)

lemma data_lines_step:
  assumes "get_labels_for_non_code_address b (rom_address_to_mem_address lo) = Inr labels"
    and "data_at r lo = Inr byte"
  shows "data_lines b r e (lo # rest) vals =
           (let vals1 = (if labels \<noteq> [] \<and> vals \<noteq> [] then [] else vals);
                items1 = (if labels \<noteq> []
                          then (if vals \<noteq> []
                                then [DataLine (lo - int (length vals)) vals, Labels lo labels]
                                else [Labels lo labels])
                          else []);
                vals2 = vals1 @ [hex_byte byte]
            in if length vals2 = 16 \<or> lo = e - 1
               then on_success (data_lines b r e rest []) (\<lambda>items.
                      Inr (items1 @ [DataLine (lo + 1 - int (length vals2)) vals2] @ items))
               else on_success (data_lines b r e rest vals2) (\<lambda>items. Inr (items1 @ items)))"
  using assms by (auto simp: Let_def algebra_simps)

lemma data_lines_ok:
  assumes "length vals < 16"
    and "\<forall>k \<in> {1..<length vals}.
           labelled_addresses b (rom_address_to_mem_address (lo - int (length vals) + int k)) = None"
    and "data_lines b r e [lo..hi] vals = Inr items"
  shows "\<forall>it \<in> set items. line_ok b it"
  using assms
proof (induction "nat (hi + 1 - lo)" arbitrary: lo vals items)
  case 0
  then have "[lo..hi] = []" by simp
  then show ?case using "0.prems"(3) by simp
next
  case (Suc n)
  then have le: "lo \<le> hi" by linarith
  then have unfold: "[lo..hi] = lo # [lo + 1..hi]"
    by (rule upto_rec1)
  have n: "n = nat (hi + 1 - (lo + 1))"
    using Suc.hyps(2) by linarith
  obtain labels where L: "get_labels_for_non_code_address b (rom_address_to_mem_address lo) = Inr labels"
    using Suc.prems(3) unfolding unfold
    by (cases "get_labels_for_non_code_address b (rom_address_to_mem_address lo)") auto
  obtain byte where B: "data_at r lo = Inr byte"
    using Suc.prems(3) L unfolding unfold
    by (cases "data_at r lo") (auto simp: Let_def split: prod.splits)
  define vals1 where "vals1 = (if labels \<noteq> [] \<and> vals \<noteq> [] then [] else vals)"
  define items1 where "items1 = (if labels \<noteq> []
                          then (if vals \<noteq> []
                                then [DataLine (lo - int (length vals)) vals, Labels lo labels]
                                else [Labels lo labels])
                          else [])"
  define vals2 where "vals2 = vals1 @ [hex_byte byte]"
  have step: "data_lines b r e [lo..hi] vals =
           (if length vals2 = 16 \<or> lo = e - 1
            then on_success (data_lines b r e [lo + 1..hi] []) (\<lambda>items.
                   Inr (items1 @ [DataLine (lo + 1 - int (length vals2)) vals2] @ items))
            else on_success (data_lines b r e [lo + 1..hi] vals2) (\<lambda>items. Inr (items1 @ items)))"
    unfolding unfold data_lines_step[OF L B] vals1_def items1_def vals2_def Let_def ..
  have items1_ok: "\<forall>it \<in> set items1. line_ok b it"
    using Suc.prems(1,2) by (auto simp: items1_def Suc_le_eq)
  have len2: "1 \<le> length vals2" "length vals2 \<le> 16"
    using Suc.prems(1) by (auto simp: vals2_def vals1_def)
  have inv2: "\<forall>k \<in> {1..<length vals2}.
           labelled_addresses b (rom_address_to_mem_address (lo + 1 - int (length vals2) + int k)) = None"
  proof (cases "labels \<noteq> [] \<and> vals \<noteq> [] \<or> vals = []")
    case True
    then have "length vals2 = 1" by (auto simp: vals2_def vals1_def)
    then show ?thesis by simp
  next
    case False
    then have v: "vals1 = vals" and nolab: "labelled_addresses b (rom_address_to_mem_address lo) = None"
      using labels_empty_iff[OF L] by (auto simp: vals1_def)
    show ?thesis
    proof
      fix k assume k: "k \<in> {1..<length vals2}"
      show "labelled_addresses b (rom_address_to_mem_address (lo + 1 - int (length vals2) + int k)) = None"
      proof (cases "k < length vals")
        case True
        then have "labelled_addresses b (rom_address_to_mem_address (lo - int (length vals) + int k)) = None"
          using Suc.prems(2) k by simp
        moreover have "lo + 1 - int (length vals2) + int k = lo - int (length vals) + int k"
          by (simp add: vals2_def v)
        ultimately show ?thesis by (simp only:)
      next
        case False
        then have "k = length vals" using k by (simp add: vals2_def v)
        then have "lo + 1 - int (length vals2) + int k = lo"
          by (simp add: vals2_def v)
        then show ?thesis using nolab by (simp only:)
      qed
    qed
  qed
  show ?case
  proof (cases "length vals2 = 16 \<or> lo = e - 1")
    case True
    then obtain rest where R: "data_lines b r e [lo + 1..hi] [] = Inr rest"
      and I: "items = items1 @ [DataLine (lo + 1 - int (length vals2)) vals2] @ rest"
      using Suc.prems(3) unfolding step
      by (cases "data_lines b r e [lo + 1..hi] []") auto
    have "\<forall>it \<in> set rest. line_ok b it"
      using Suc.hyps(1)[OF n _ _ R] by simp
    moreover have "line_ok b (DataLine (lo + 1 - int (length vals2)) vals2)"
      using len2 inv2 by simp
    ultimately show ?thesis
      using items1_ok I by auto
  next
    case False
    then obtain rest where R: "data_lines b r e [lo + 1..hi] vals2 = Inr rest"
      and I: "items = items1 @ rest"
      using Suc.prems(3) unfolding step
      by (cases "data_lines b r e [lo + 1..hi] vals2") auto
    have lt: "length vals2 < 16"
      using False len2 by simp
    have "\<forall>it \<in> set rest. line_ok b it"
      using Suc.hyps(1)[OF n lt _ R] inv2 by simp
    then show ?thesis
      using items1_ok I by auto
  qed
qed

lemma data_lines_from:
  assumes "data_lines b r e [lo..hi] vals = Inr items"
  shows "lines_from (lo - int (length vals)) items"
  using assms
proof (induction "nat (hi + 1 - lo)" arbitrary: lo vals items)
  case 0
  then have "[lo..hi] = []" by simp
  then show ?case using "0.prems" by simp
next
  case (Suc n)
  then have le: "lo \<le> hi" by linarith
  then have unfold: "[lo..hi] = lo # [lo + 1..hi]"
    by (rule upto_rec1)
  have n: "n = nat (hi + 1 - (lo + 1))"
    using Suc.hyps(2) by linarith
  obtain labels where L: "get_labels_for_non_code_address b (rom_address_to_mem_address lo) = Inr labels"
    using Suc.prems unfolding unfold
    by (cases "get_labels_for_non_code_address b (rom_address_to_mem_address lo)") auto
  obtain byte where B: "data_at r lo = Inr byte"
    using Suc.prems L unfolding unfold
    by (cases "data_at r lo") (auto simp: Let_def split: prod.splits)
  define vals1 where "vals1 = (if labels \<noteq> [] \<and> vals \<noteq> [] then [] else vals)"
  define items1 where "items1 = (if labels \<noteq> []
                          then (if vals \<noteq> []
                                then [DataLine (lo - int (length vals)) vals, Labels lo labels]
                                else [Labels lo labels])
                          else [])"
  define vals2 where "vals2 = vals1 @ [hex_byte byte]"
  have step: "data_lines b r e [lo..hi] vals =
           (if length vals2 = 16 \<or> lo = e - 1
            then on_success (data_lines b r e [lo + 1..hi] []) (\<lambda>items.
                   Inr (items1 @ [DataLine (lo + 1 - int (length vals2)) vals2] @ items))
            else on_success (data_lines b r e [lo + 1..hi] vals2) (\<lambda>items. Inr (items1 @ items)))"
    unfolding unfold data_lines_step[OF L B] vals1_def items1_def vals2_def Let_def ..
  have pre: "\<And>rest. lines_from (lo - int (length vals1)) rest
                 \<Longrightarrow> lines_from (lo - int (length vals)) (items1 @ rest)"
    by (auto simp: items1_def vals1_def)
  have pos: "lo + 1 - int (length vals2) = lo - int (length vals1)"
    by (simp add: vals2_def)
  show ?case
  proof (cases "length vals2 = 16 \<or> lo = e - 1")
    case True
    then obtain rest where R: "data_lines b r e [lo + 1..hi] [] = Inr rest"
      and I: "items = items1 @ [DataLine (lo + 1 - int (length vals2)) vals2] @ rest"
      using Suc.prems unfolding step
      by (cases "data_lines b r e [lo + 1..hi] []") auto
    have "lines_from (lo + 1) rest"
      using Suc.hyps(1)[OF n R] by simp
    then have "lines_from (lo - int (length vals1))
                 ([DataLine (lo + 1 - int (length vals2)) vals2] @ rest)"
      by (simp add: pos) (simp add: vals2_def)
    then show ?thesis
      unfolding I by (rule pre)
  next
    case False
    then obtain rest where R: "data_lines b r e [lo + 1..hi] vals2 = Inr rest"
      and I: "items = items1 @ rest"
      using Suc.prems unfolding step
      by (cases "data_lines b r e [lo + 1..hi] vals2") auto
    have "lines_from (lo - int (length vals1)) rest"
      using Suc.hyps(1)[OF n R] by (simp add: pos)
    then show ?thesis
      unfolding I by (rule pre)
  qed
qed

lemma data_lines_returns:
  assumes "0 \<le> lo" and "hi < int (length (data r))"
    and "\<forall>a. labelled_addresses b a \<noteq> Some []"
  shows "\<exists>items. data_lines b r e [lo..hi] vals = Inr items"
  using assms(1)
proof (induction "nat (hi + 1 - lo)" arbitrary: lo vals)
  case 0
  then have "[lo..hi] = []" by simp
  then show ?case by simp
next
  case (Suc n)
  then have le: "lo \<le> hi" by linarith
  then have unfold: "[lo..hi] = lo # [lo + 1..hi]"
    by (rule upto_rec1)
  have n: "n = nat (hi + 1 - (lo + 1))"
    using Suc.hyps(2) by linarith
  have "\<exists>labels. get_labels_for_non_code_address b (rom_address_to_mem_address lo) = Inr labels"
  proof (cases "labelled_addresses b (rom_address_to_mem_address lo)")
    case None
    then show ?thesis by (simp add: get_labels_for_non_code_address_def)
  next
    case (Some l)
    then have "l \<noteq> []" using assms(3) by auto
    then show ?thesis
      using Some
      by (cases l) (simp_all add: get_labels_for_non_code_address_def explicit_label_line_def)
  qed
  then obtain labels where L: "get_labels_for_non_code_address b (rom_address_to_mem_address lo) = Inr labels"
    by blast
  have B: "data_at r lo = Inr (uint (data r ! nat lo))"
    using Suc.prems le assms(2) by (simp add: data_at_def)
  have rest: "\<And>vs. \<exists>items. data_lines b r e [lo + 1..hi] vs = Inr items"
    using Suc.hyps(1)[OF n] Suc.prems by simp
  show ?case
    unfolding unfold data_lines_step[OF L B] Let_def
    using rest by (metis on_success_Inr)
qed

lemma process_data_in_range_returns:
  assumes "0 \<le> start_address" and "end_address \<le> int (length (data r))"
    and "\<forall>a. labelled_addresses b a \<noteq> Some []"
  shows "\<exists>b'. process_data_in_range b r start_address end_address = Inr b'"
proof -
  have "end_address - 1 < int (length (data r))"
    using assms(2) by simp
  then obtain items where "data_lines b r end_address [start_address..end_address - 1] [] = Inr items"
    using data_lines_returns[OF assms(1) _ assms(3)] by blast
  then show ?thesis
    unfolding process_data_in_range_def
    using data_loop_render[of b b r end_address "[start_address..end_address - 1]" "[]"]
    by simp
qed

text \<open>
  Claim C8. For every data region written by \<^verbatim>\<open>process_data_in_range\<close>, the output is
  the rendering of a sequence of items that follow each other from the start address:
  every line of values holds at least 1 and at most 16 values, and no address after the
  first one of a line has a label, so that at an address with a label the values gathered
  so far were written on a line of their own before the label, however few they were.
\<close>

theorem data_lines_at_most_16:
  assumes "process_data_in_range b r start_address end_address = Inr b'"
  shows "\<exists>items. data_lines b r end_address [start_address..end_address - 1] [] = Inr items \<and>
                 b' = render items b \<and> lines_from start_address items \<and>
                 (\<forall>it \<in> set items. line_ok b it)"
proof -
  have eq: "process_data_in_range b r start_address end_address
              = on_success (data_lines b r end_address [start_address..end_address - 1] [])
                  (\<lambda>items. Inr (render items b))"
    unfolding process_data_in_range_def by (rule data_loop_render) simp
  then obtain items where I: "data_lines b r end_address [start_address..end_address - 1] [] = Inr items"
    and R: "b' = render items b"
    using assms by (cases "data_lines b r end_address [start_address..end_address - 1] []") auto
  have "\<forall>it \<in> set items. line_ok b it"
    using data_lines_ok[OF _ _ I] by simp
  moreover have "lines_from start_address items"
    using data_lines_from[OF I] by simp
  ultimately show ?thesis
    using I R by blast
qed

theorem data_lines_at_most_16_witness:
  "process_data_in_range
     ((Bank 0)\<lparr>labelled_addresses := [0x104 \<mapsto> ''HeaderLogo'', 0x106 \<mapsto> ''.x'']\<rparr>)
     (example_rom (replicate 0x104 0 @ [0x01, 0x02, 0x03, 0x04])) 0x104 0x108
     = Inr ((Bank 0)\<lparr>labelled_addresses := [0x104 \<mapsto> ''HeaderLogo'', 0x106 \<mapsto> ''.x''],
                     output := [''HeaderLogo::'', ''    DB $01, $02'', '''', ''.x:'',
                                ''    DB $03, $04'']\<rparr>) \<and>
   data_lines
     ((Bank 0)\<lparr>labelled_addresses := [0x104 \<mapsto> ''HeaderLogo'', 0x106 \<mapsto> ''.x'']\<rparr>)
     (example_rom (replicate 0x104 0 @ [0x01, 0x02, 0x03, 0x04])) 0x108 [0x104..0x108 - 1] []
     = Inr [Labels 0x104 [''HeaderLogo::''], DataLine 0x104 [''$01'', ''$02''],
            Labels 0x106 [''.x:''], DataLine 0x106 [''$03'', ''$04'']] \<and>
   (\<exists>items.
      data_lines
        ((Bank 0)\<lparr>labelled_addresses := [0x104 \<mapsto> ''HeaderLogo'', 0x106 \<mapsto> ''.x'']\<rparr>)
        (example_rom (replicate 0x104 0 @ [0x01, 0x02, 0x03, 0x04])) 0x108 [0x104..0x108 - 1] []
        = Inr items \<and>
      lines_from 0x104 items \<and>
      (\<forall>it \<in> set items.
         line_ok ((Bank 0)\<lparr>labelled_addresses := [0x104 \<mapsto> ''HeaderLogo'', 0x106 \<mapsto> ''.x'']\<rparr>) it))"
proof -
  let ?b = "(Bank 0)\<lparr>labelled_addresses := [0x104 \<mapsto> ''HeaderLogo'', 0x106 \<mapsto> ''.x'']\<rparr>"
  let ?r = "example_rom (replicate 0x104 0 @ [0x01, 0x02, 0x03, 0x04])"
  have h: "process_data_in_range ?b ?r 0x104 0x108
             = Inr (?b\<lparr>output := [''HeaderLogo::'', ''    DB $01, $02'', '''', ''.x:'',
                                   ''    DB $03, $04'']\<rparr>)"
    by (simp add: data_eval hex_eval)
  have l: "data_lines ?b ?r 0x108 [0x104..0x108 - 1] []
             = Inr [Labels 0x104 [''HeaderLogo::''], DataLine 0x104 [''$01'', ''$02''],
                    Labels 0x106 [''.x:''], DataLine 0x106 [''$03'', ''$04'']]"
    by (simp add: data_eval hex_eval)
  show ?thesis
    using data_lines_at_most_16[OF h] h l by auto
qed

section \<open>Labels and recorded addresses\<close>

lemma output_append_output: "output (append_output t b) = output b @ [t]"
  by (simp add: append_output_def)

lemma output_append_labels:
  "\<exists>ys. output (append_labels_to_output ls b) = output b @ ys @ [join [CHR 0x0A] ls]"
  by (simp add: append_labels_to_output_def append_empty_line_if_none_already_def
        append_output_def)

lemma explicit_label_line_nonempty:
  "l \<noteq> [] \<Longrightarrow>
   explicit_label_line l = Inr (l @ (if hd l = CHR ''.'' then '':'' else ''::''))"
  by (cases l) (simp_all add: explicit_label_line_def)

lemma labels_of_labelled:
  "labelled_addresses b a = Some l \<Longrightarrow> l \<noteq> [] \<Longrightarrow>
   get_labels_for_non_code_address b a = Inr [l @ (if hd l = CHR ''.'' then '':'' else ''::'')]"
  by (simp add: get_labels_for_non_code_address_def explicit_label_line_nonempty)

lemma label_step_output:
  assumes "b1 = (if labels \<noteq> [] then append_labels_to_output labels b0 else b)"
    and "labelled_addresses b0 = labelled_addresses b" and "\<exists>ys. output b0 = output b @ ys"
  shows "labelled_addresses b1 = labelled_addresses b \<and>
         (\<exists>ys. output b1 = output b @ ys) \<and>
         (labels \<noteq> [] \<longrightarrow> join [CHR 0x0A] labels \<in> set (output b1))"
proof (cases "labels = []")
  case True
  then show ?thesis
    using assms by simp
next
  case False
  obtain ys zs where "output b0 = output b @ ys"
    and "output (append_labels_to_output labels b0) = output b0 @ zs @ [join [CHR 0x0A] labels]"
    using assms(3) output_append_labels[of labels b0] by blast
  then show ?thesis
    using False assms(1,2) by simp
qed

lemma data_loop_step:
  assumes "data_loop r e (address # addresses) vals b = Inr b'"
  shows "\<exists>labels vals' b1.
           get_labels_for_non_code_address b (rom_address_to_mem_address address) = Inr labels \<and>
           data_loop r e addresses vals' b1 = Inr b' \<and>
           labelled_addresses b1 = labelled_addresses b \<and>
           (\<exists>ys. output b1 = output b @ ys) \<and>
           (labels \<noteq> [] \<longrightarrow> join [CHR 0x0A] labels \<in> set (output b1))"
proof -
  from assms obtain labels where
    L: "get_labels_for_non_code_address b (rom_address_to_mem_address address) = Inr labels"
    by (cases "get_labels_for_non_code_address b (rom_address_to_mem_address address)") auto
  from assms L obtain byte where B: "data_at r address = Inr byte"
    by (cases "data_at r address") (auto simp: Let_def split: prod.splits)
  define b0 where "b0 = (if vals \<noteq> [] then append_output (format_data vals) b else b)"
  define b1 where "b1 = (if labels \<noteq> [] then append_labels_to_output labels b0 else b)"
  define vals1 where "vals1 = (if labels \<noteq> [] \<and> vals \<noteq> [] then [] else vals)"
  define vals2 where "vals2 = vals1 @ [hex_byte byte]"
  define b2 where "b2 = (if length vals2 = 16 \<or> address = e - 1
                         then append_output (format_data vals2) b1 else b1)"
  define vals3 where "vals3 = (if length vals2 = 16 \<or> address = e - 1 then [] else vals2)"
  have "labelled_addresses b0 = labelled_addresses b" "\<exists>ys. output b0 = output b @ ys"
    by (simp_all add: b0_def output_append_output)
  note p1 = label_step_output[OF b1_def this]
  have p2: "labelled_addresses b2 = labelled_addresses b" "\<exists>ys. output b2 = output b @ ys"
    "labels \<noteq> [] \<longrightarrow> join [CHR 0x0A] labels \<in> set (output b2)"
    using p1 by (auto simp: b2_def output_append_output)
  have "data_loop r e (address # addresses) vals b = data_loop r e addresses vals3 b2"
    by (simp add: L B Let_def b0_def b1_def vals1_def vals2_def b2_def vals3_def)
  then have "data_loop r e addresses vals3 b2 = Inr b'"
    using assms by simp
  then show ?thesis
    using L p2 by blast
qed

lemma data_loop_output:
  "data_loop r e addresses vals b = Inr b' \<Longrightarrow>
   labelled_addresses b' = labelled_addresses b \<and> (\<exists>ys. output b' = output b @ ys)"
proof (induction addresses arbitrary: vals b)
  case Nil
  then show ?case by simp
next
  case (Cons address addresses)
  from data_loop_step[OF Cons.prems] obtain vals' b1 where
    rest: "data_loop r e addresses vals' b1 = Inr b'"
    and lab: "labelled_addresses b1 = labelled_addresses b"
    and out: "\<exists>ys. output b1 = output b @ ys"
    by blast
  show ?case
    using Cons.IH[OF rest] lab out by auto
qed

lemma data_loop_label:
  assumes "data_loop r e addresses vals b = Inr b'" and "a \<in> set addresses"
    and "labelled_addresses b (rom_address_to_mem_address a) = Some l" and "l \<noteq> []"
  shows "l @ (if hd l = CHR ''.'' then '':'' else ''::'') \<in> set (output b')"
  using assms(1,2,3)
proof (induction addresses arbitrary: vals b)
  case Nil
  then show ?case by simp
next
  case (Cons address addresses)
  from data_loop_step[OF Cons.prems(1)] obtain labels vals' b1 where
    L: "get_labels_for_non_code_address b (rom_address_to_mem_address address) = Inr labels"
    and rest: "data_loop r e addresses vals' b1 = Inr b'"
    and lab: "labelled_addresses b1 = labelled_addresses b"
    and here: "labels \<noteq> [] \<longrightarrow> join [CHR 0x0A] labels \<in> set (output b1)"
    by blast
  show ?case
  proof (cases "address = a")
    case True
    then have "labels = [l @ (if hd l = CHR ''.'' then '':'' else ''::'')]"
      using L labels_of_labelled[OF Cons.prems(3) assms(4)] by simp
    then have "l @ (if hd l = CHR ''.'' then '':'' else ''::'') \<in> set (output b1)"
      using here by simp
    then show ?thesis
      using data_loop_output[OF rest] by auto
  next
    case False
    then have "a \<in> set addresses"
      using Cons.prems(2) by simp
    then show ?thesis
      using Cons.IH[OF rest] Cons.prems(3) lab by simp
  qed
qed

lemma text_loop_step:
  assumes "text_loop r (address # addresses) vals t b = Inr res"
  shows "\<exists>labels vals' t' b1.
           get_labels_for_non_code_address b (rom_address_to_mem_address address) = Inr labels \<and>
           text_loop r addresses vals' t' b1 = Inr res \<and>
           labelled_addresses b1 = labelled_addresses b \<and>
           (\<exists>ys. output b1 = output b @ ys) \<and>
           (labels \<noteq> [] \<longrightarrow> join [CHR 0x0A] labels \<in> set (output b1))"
proof -
  from assms obtain labels where
    L: "get_labels_for_non_code_address b (rom_address_to_mem_address address) = Inr labels"
    by (cases "get_labels_for_non_code_address b (rom_address_to_mem_address address)") auto
  from assms L obtain byte where B: "data_at r address = Inr byte"
    by (cases "data_at r address") (auto simp: Let_def split: prod.splits)
  define vals0 where "vals0 = (if t \<noteq> [] then vals @ [quoted t] else vals)"
  define b0 where "b0 = (if vals0 \<noteq> [] then append_output (format_data vals0) b else b)"
  define b1 where "b1 = (if labels \<noteq> [] then append_labels_to_output labels b0 else b)"
  define vals1 where "vals1 = (if labels \<noteq> [] then [] else vals)"
  define t1 where "t1 = (if labels \<noteq> [] then [] else t)"
  define vals2 where "vals2 = (if byte \<ge> 0x20 \<and> byte < 0x7F then vals1
                               else (if t1 \<noteq> [] then vals1 @ [quoted t1] else vals1) @ [hex_byte byte])"
  define t2 where "t2 = (if byte \<ge> 0x20 \<and> byte < 0x7F then t1 @ [char_of byte] else [])"
  have "labelled_addresses b0 = labelled_addresses b" "\<exists>ys. output b0 = output b @ ys"
    by (simp_all add: b0_def output_append_output)
  note p1 = label_step_output[OF b1_def this]
  have "text_loop r (address # addresses) vals t b = text_loop r addresses vals2 t2 b1"
    by (simp add: L B Let_def vals0_def b0_def b1_def vals1_def t1_def vals2_def t2_def)
  then have "text_loop r addresses vals2 t2 b1 = Inr res"
    using assms by simp
  then show ?thesis
    using L p1 by blast
qed

lemma text_loop_output:
  "text_loop r addresses vals t b = Inr (vals', t', b') \<Longrightarrow>
   labelled_addresses b' = labelled_addresses b \<and> (\<exists>ys. output b' = output b @ ys)"
proof (induction addresses arbitrary: vals t b)
  case Nil
  then show ?case by simp
next
  case (Cons address addresses)
  from text_loop_step[OF Cons.prems] obtain vals1 t1 b1 where
    rest: "text_loop r addresses vals1 t1 b1 = Inr (vals', t', b')"
    and lab: "labelled_addresses b1 = labelled_addresses b"
    and out: "\<exists>ys. output b1 = output b @ ys"
    by blast
  show ?case
    using Cons.IH[OF rest] lab out by auto
qed

lemma text_loop_label:
  assumes "text_loop r addresses vals t b = Inr (vals', t', b')" and "a \<in> set addresses"
    and "labelled_addresses b (rom_address_to_mem_address a) = Some l" and "l \<noteq> []"
  shows "l @ (if hd l = CHR ''.'' then '':'' else ''::'') \<in> set (output b')"
  using assms(1,2,3)
proof (induction addresses arbitrary: vals t b)
  case Nil
  then show ?case by simp
next
  case (Cons address addresses)
  from text_loop_step[OF Cons.prems(1)] obtain labels vals1 t1 b1 where
    L: "get_labels_for_non_code_address b (rom_address_to_mem_address address) = Inr labels"
    and rest: "text_loop r addresses vals1 t1 b1 = Inr (vals', t', b')"
    and lab: "labelled_addresses b1 = labelled_addresses b"
    and here: "labels \<noteq> [] \<longrightarrow> join [CHR 0x0A] labels \<in> set (output b1)"
    by blast
  show ?case
  proof (cases "address = a")
    case True
    then have "labels = [l @ (if hd l = CHR ''.'' then '':'' else ''::'')]"
      using L labels_of_labelled[OF Cons.prems(3) assms(4)] by simp
    then have "l @ (if hd l = CHR ''.'' then '':'' else ''::'') \<in> set (output b1)"
      using here by simp
    then show ?thesis
      using text_loop_output[OF rest] by auto
  next
    case False
    then have "a \<in> set addresses"
      using Cons.prems(2) by simp
    then show ?thesis
      using Cons.IH[OF rest] Cons.prems(3) lab by simp
  qed
qed

lemma text_loop_returns:
  assumes "hi < int (length (data r))"
  shows "0 \<le> lo \<Longrightarrow> \<forall>a. labelled_addresses b a \<noteq> Some [] \<Longrightarrow>
         \<exists>res. text_loop r [lo..hi] vals t b = Inr res"
proof (induction "nat (hi + 1 - lo)" arbitrary: lo vals t b)
  case 0
  then have "[lo..hi] = []" by simp
  then show ?case by simp
next
  case (Suc n)
  then have le: "lo \<le> hi" by linarith
  then have unfold: "[lo..hi] = lo # [lo + 1..hi]"
    by (rule upto_rec1)
  have n: "n = nat (hi + 1 - (lo + 1))"
    using Suc.hyps(2) by linarith
  have "\<exists>labels. get_labels_for_non_code_address b (rom_address_to_mem_address lo) = Inr labels"
  proof (cases "labelled_addresses b (rom_address_to_mem_address lo)")
    case None
    then show ?thesis by (simp add: get_labels_for_non_code_address_def)
  next
    case (Some l)
    then have "l \<noteq> []" using Suc.prems(2) by auto
    then show ?thesis
      using labels_of_labelled[OF Some] by simp
  qed
  then obtain labels where L: "get_labels_for_non_code_address b (rom_address_to_mem_address lo) = Inr labels"
    by blast
  have B: "data_at r lo = Inr (uint (data r ! nat lo))"
    using Suc.prems(1) le assms by (simp add: data_at_def)
  have rest: "\<And>vs t b1. labelled_addresses b1 = labelled_addresses b \<Longrightarrow>
                 \<exists>x y z. text_loop r [lo + 1..hi] vs t b1 = Inr (x, y, z)"
  proof -
    fix vs t and b1 :: bank
    assume "labelled_addresses b1 = labelled_addresses b"
    then have "\<exists>res. text_loop r [lo + 1..hi] vs t b1 = Inr res"
      using Suc.hyps(1)[OF n, of b1 vs t] Suc.prems by simp
    then show "\<exists>x y z. text_loop r [lo + 1..hi] vs t b1 = Inr (x, y, z)"
      by (metis prod_cases3)
  qed
  show ?case
    unfolding unfold
    by (auto simp: L B Let_def intro!: rest split: if_splits)
qed

lemma process_text_in_range_label:
  assumes "0 \<le> start_address" and "end_address \<le> int (length (data r))"
    and "\<forall>k. labelled_addresses b k \<noteq> Some []"
    and "start_address \<le> a" and "a < end_address"
    and "labelled_addresses b (rom_address_to_mem_address a) = Some l"
  shows "\<exists>b'. process_text_in_range b r start_address end_address = Inr b' \<and>
              l @ (if hd l = CHR ''.'' then '':'' else ''::'') \<in> set (output b')"
proof -
  have "end_address - 1 < int (length (data r))"
    using assms(2) by simp
  from text_loop_returns[OF this assms(1,3)] obtain vals t b1 where
    T: "text_loop r [start_address..end_address - 1] [] [] b = Inr (vals, t, b1)"
    by (metis prod_cases3)
  have "l \<noteq> []"
    using assms(3,6) by auto
  moreover have "a \<in> set [start_address..end_address - 1]"
    using assms(4,5) by simp
  ultimately have "l @ (if hd l = CHR ''.'' then '':'' else ''::'') \<in> set (output b1)"
    using text_loop_label[OF T _ assms(6)] by blast
  then show ?thesis
    by (simp add: process_text_in_range_def T Let_def output_append_output)
qed

lemma process_data_in_range_label:
  assumes "0 \<le> start_address" and "end_address \<le> int (length (data r))"
    and "\<forall>k. labelled_addresses b k \<noteq> Some []"
    and "start_address \<le> a" and "a < end_address"
    and "labelled_addresses b (rom_address_to_mem_address a) = Some l"
  shows "\<exists>b'. process_data_in_range b r start_address end_address = Inr b' \<and>
              l @ (if hd l = CHR ''.'' then '':'' else ''::'') \<in> set (output b')"
proof -
  from process_data_in_range_returns[OF assms(1,2,3)] obtain b' where
    D: "process_data_in_range b r start_address end_address = Inr b'"
    by blast
  have "l \<noteq> []"
    using assms(3,6) by auto
  moreover have "a \<in> set [start_address..end_address - 1]"
    using assms(4,5) by simp
  ultimately have "l @ (if hd l = CHR ''.'' then '':'' else ''::'') \<in> set (output b')"
    using data_loop_label[OF D[unfolded process_data_in_range_def] _ assms(6)] by blast
  then show ?thesis
    using D by simp
qed

lemma mem_address_idem:
  "rom_address_to_mem_address (rom_address_to_mem_address v) = rom_address_to_mem_address v"
  by (simp add: rom_address_to_mem_address_def)

lemma resolve_operand_label_unrecorded:
  assumes "rom_address_to_mem_address v \<notin> disassembled_addresses (self st)"
    and "\<not> first_pass (self st)" and "v < 0xc000"
  shows "resolve_operand_label (Some v) st = Inr st"
  using assms
  by (simp add: get_label_for_instruction_operand_def resolve_operand_label_def Let_def)

lemma resolve_operand_label_explicit:
  assumes "0xc000 \<le> v" and "labelled_addresses (self st) v = Some l"
    and "operand_values st \<noteq> []"
  shows "resolve_operand_label (Some v) st =
           Inr (st\<lparr>operand_values := butlast (operand_values st) @
                  [if startswith_bracket (last (operand_values st)) then ''['' @ l @ '']''
                   else l]\<rparr>)"
  using assms by (simp add: resolve_operand_label_def pop_def)

lemma absolute_target_unrecorded:
  assumes "data_at r (pc b) = Inr opcode" and "opcode \<noteq> 0xCB"
    and "instruction_names r opcode = Some name"
    and "instruction_operands r opcode = Some (pre @ [''a16''] @ post)"
    and "name \<noteq> ''stop''" and "name \<noteq> ''halt''"
    and "list_all plain_operand pre" and "list_all plain_operand post"
    and "read_word r (pc b) = Inr v" and "v < 0xc000"
    and "rom_address_to_mem_address v \<notin> disassembled_addresses b"
    and "\<not> first_pass b" and "pc b + 2 < e"
  shows "decode_instruction b r e =
           Inr \<lparr>length' = 3, instruction_name = name,
                operand_values = pre @ [hex_word v] @ post, self = b, rom = r\<rparr>"
proof -
  let ?st = "\<lparr>length' = 1, instruction_name = name, operand_values = [], self = b, rom = r\<rparr>"
  let ?st1 = "\<lparr>length' = 3, instruction_name = name, operand_values = pre @ [hex_word v],
               self = b, rom = r\<rparr>"
  have fetch: "decode_instruction b r e
                 = on_success (decode_operands opcode (pc b) ([''a16''] @ post)
                     (?st\<lparr>operand_values := operand_values ?st @ pre\<rparr>))
                     (\<lambda>st. Inr (check_end (pc b) opcode e st))"
    using decode_instruction_plain_fetch[OF assms(1-6), of e]
      decode_operands_plain_prefix[OF assms(7), of opcode "pc b" "[''a16''] @ post" ?st]
    by simp
  have keep: "resolve_operand_label (Some v) ?st1 = Inr ?st1"
    using resolve_operand_label_unrecorded[of v ?st1] assms(10-12) by simp
  show ?thesis
    using assms(8,9,13)
    by (simp add: fetch decode_operand_def keep decode_operands_plain check_end_def)
qed

lemma relative_target_unrecorded:
  assumes "data_at r (pc b) = Inr opcode" and "opcode \<noteq> 0xCB"
    and "instruction_names r opcode = Some name"
    and "instruction_operands r opcode = Some (pre @ [''pc+r8''] @ post)"
    and "name \<noteq> ''stop''" and "name \<noteq> ''halt''"
    and "list_all plain_operand pre" and "list_all plain_operand post"
    and "data_at r (pc b + 1) = Inr byte"
    and "(pc b + 2 + to_signed byte) div 0x4000 = bank_number b"
    and "rom_address_to_mem_address (pc b + 2 + to_signed byte) \<notin> disassembled_addresses b"
    and "\<not> first_pass b" and "pc b + 1 < e"
  shows "decode_instruction b r e =
           Inr \<lparr>length' = 2, instruction_name = name,
                operand_values = pre @
                  [if 2 + to_signed byte \<ge> 0 then ''@+'' @ hex_byte (2 + to_signed byte)
                   else ''@-'' @ hex_byte (- (2 + to_signed byte))] @ post,
                self = b, rom = r\<rparr>"
proof -
  let ?st = "\<lparr>length' = 1, instruction_name = name, operand_values = [], self = b, rom = r\<rparr>"
  have fetch: "decode_instruction b r e
                 = on_success (decode_operands opcode (pc b) ([''pc+r8''] @ post)
                     (?st\<lparr>operand_values := operand_values ?st @ pre\<rparr>))
                     (\<lambda>st. Inr (check_end (pc b) opcode e st))"
    using decode_instruction_plain_fetch[OF assms(1-6), of e]
      decode_operands_plain_prefix[OF assms(7), of opcode "pc b" "[''pc+r8''] @ post" ?st]
    by simp
  have lt: "rom_address_to_mem_address (pc b + 2 + to_signed byte) < 0xc000"
    using mem_address_below_8000[of "pc b + 2 + to_signed byte"] by linarith
  have keep: "\<And>ops. resolve_operand_label
                  (Some (rom_address_to_mem_address (pc b + 2 + to_signed byte)))
                  \<lparr>length' = 2, instruction_name = name, operand_values = ops, self = b, rom = r\<rparr>
                = Inr \<lparr>length' = 2, instruction_name = name, operand_values = ops,
                       self = b, rom = r\<rparr>"
    using assms(11,12) lt
    by (intro resolve_operand_label_unrecorded) (simp_all add: mem_address_idem)
  show ?thesis
    using assms(8,9,10,13)
    by (simp add: fetch decode_operand_def Let_def keep decode_operands_plain check_end_def)
qed
lemma decode_operand_value_text:
  assumes "decode_operand opcode pc0 operand st = Inr (Some v, brk, st1)"
  shows "operand_values st1 \<noteq> []"
proof -
  consider "operand = ''a16''" | "operand = ''[a16]''" | "operand = ''[$ff00+a8]''"
    | "operand = ''d8''" | "operand = ''d16''" | "operand = ''r8''" | "operand = ''pc+r8''"
    | "operand = ''sp+r8''" | "plain_operand operand"
    by (auto simp: plain_operand_def)
  then show ?thesis
  proof cases
    case 9
    then show ?thesis
      using assms by (auto simp: decode_operand_plain)
  qed (use assms in \<open>auto simp: decode_operand_def Let_def pop_def on_success_def
         split: sum.splits if_splits\<close>)
qed

lemma operand_label_explicit:
  assumes "decode_operand opcode pc0 operand st = Inr (Some v, False, st1)"
    and "0xc000 \<le> v" and "labelled_addresses (self st1) v = Some l"
  shows "resolve_operand_label (Some v) st1 =
           Inr (st1\<lparr>operand_values := butlast (operand_values st1) @
                  [if startswith_bracket (last (operand_values st1)) then ''['' @ l @ '']''
                   else l]\<rparr>)"
  using resolve_operand_label_explicit[OF assms(2,3) decode_operand_value_text[OF assms(1)]] .




end
